theory Spec2Isabelle
  imports Main "HOL-Library.AList"
begin

section \<open>Data model\<close>

text \<open>
  The catalog application (\<^verbatim>\<open>src/app.js\<close>, class \<^verbatim>\<open>CatalogApp\<close>) works on documents
  obtained from \<^verbatim>\<open>JSON.parse\<close>. A parsed document is a tree: no two positions share an
  object, so the in-place mutations of the source (\<^verbatim>\<open>Object.assign\<close>, \<^verbatim>\<open>push\<close>,
  \<^verbatim>\<open>splice\<close>) are modelled by returning the updated value.

  A JSON object is an association list in property order; \<^verbatim>\<open>obj[k] = v\<close> is
  \<^const>\<open>AList.update\<close>, which overwrites the value of an existing property in place and
  appends a new property at the end, as JavaScript does for string keys. Reading a
  property is \<^const>\<open>map_of\<close>; \<open>None\<close> is JavaScript's \<^verbatim>\<open>undefined\<close>.
  Numbers are opaque to the engine (only their truthiness is ever inspected).
\<close>

datatype json =
    JNull
  | JBool bool
  | JNum int
  | JStr string
  | JArr "json list"
  | JObj "(string \<times> json) list"

type_synonym obj = "(string \<times> json) list"

text \<open>JavaScript truthiness of a JSON value.\<close>

fun truthy :: "json \<Rightarrow> bool" where
  "truthy JNull = False"
| "truthy (JBool b) = b"
| "truthy (JNum n) = (n \<noteq> 0)"
| "truthy (JStr s) = (s \<noteq> [])"
| "truthy (JArr xs) = True"
| "truthy (JObj ps) = True"

text \<open>\<^verbatim>\<open>Object.assign(target, source)\<close>: every property of the source, in order, is
  assigned on the target. The copy is shallow: a property value is taken over whole.\<close>

definition assign :: "obj \<Rightarrow> obj \<Rightarrow> obj" where
  "assign target source = fold (\<lambda>(k, v). AList.update k v) source target"

text \<open>\<^verbatim>\<open>item.id\<close>.\<close>

definition idOf :: "obj \<Rightarrow> json option" where
  "idOf item = map_of item ''id''"

text \<open>\<^verbatim>\<open>item.id === itemId\<close> for a string \<^verbatim>\<open>itemId\<close>: strict equality, so only an item
  whose \<^verbatim>\<open>id\<close> is that very string matches.\<close>

definition has_id :: "string \<Rightarrow> obj \<Rightarrow> bool" where
  "has_id itemId item \<longleftrightarrow> idOf item = Some (JStr itemId)"

text \<open>\<^verbatim>\<open>Array.prototype.findIndex\<close>: the first index whose element satisfies the
  predicate; \<open>None\<close> stands for \<^verbatim>\<open>-1\<close>.\<close>

fun findIndex :: "('a \<Rightarrow> bool) \<Rightarrow> 'a list \<Rightarrow> nat option" where
  "findIndex P [] = None"
| "findIndex P (x # xs) = (if P x then Some 0 else map_option Suc (findIndex P xs))"

text \<open>An entry of a delta's \<^verbatim>\<open>updated\<close> list: \<^verbatim>\<open>{id, set?, box_history_append?}\<close>.\<close>

record update =
  upd_id :: string
  upd_set :: "obj option"
  box_history_append :: "json list option"

text \<open>A delta file: \<^verbatim>\<open>{added?, updated?, removed?}\<close>. An absent list is \<open>None\<close>; a list
  that is present is truthy even when empty.\<close>

record delta =
  added :: "obj list option"
  updated :: "update list option"
  removed :: "string list option"

text \<open>The local edit overlay: \<^verbatim>\<open>{edited: [{id, set}], timestamp?}\<close>.\<close>

record edit =
  edit_id :: string
  edit_set :: obj

record overlay =
  edited :: "edit list"
  timestamp :: "string option"

text \<open>
  A JavaScript statement sequence that mutates its state in place either runs to its
  end or throws part-way; in both cases the mutations made so far remain. \<open>Returned s\<close>
  is normal completion in state \<open>s\<close>, \<open>Raised s\<close> a \<^verbatim>\<open>TypeError\<close> thrown in state \<open>s\<close>.
\<close>

datatype 'a outcome = Returned 'a | Raised 'a

fun after :: "'a outcome \<Rightarrow> 'a" where
  "after (Returned s) = s"
| "after (Raised s) = s"

section \<open>Delta applicator: \<^verbatim>\<open>mergeDelta\<close>\<close>

text \<open>
  Lines 92--95, for a found item and a present \<^verbatim>\<open>box_history_append\<close>:
  \<^verbatim>\<open>item.box_history = item.box_history || []; item.box_history.push(...append)\<close>.
  The assignment happens first; \<^verbatim>\<open>push\<close> exists on arrays only, so any other truthy
  value of \<^verbatim>\<open>box_history\<close> throws a \<^verbatim>\<open>TypeError\<close>.
\<close>

definition appendBoxHistory :: "json list \<Rightarrow> obj \<Rightarrow> obj outcome" where
  "appendBoxHistory app item =
     (let bh = (case map_of item ''box_history'' of
                  None \<Rightarrow> JArr []
                | Some v \<Rightarrow> if truthy v then v else JArr []);
          item1 = AList.update ''box_history'' bh item
      in case bh of
           JArr xs \<Rightarrow> Returned (AList.update ''box_history'' (JArr (xs @ app)) item1)
         | _ \<Rightarrow> Raised item1)"

text \<open>\<^verbatim>\<open>update.set || {}\<close>.\<close>

definition setOf :: "update \<Rightarrow> obj" where
  "setOf u = (case upd_set u of None \<Rightarrow> [] | Some s \<Rightarrow> s)"

text \<open>Lines 89--95, the body run for an item that was found:
  \<^verbatim>\<open>Object.assign(item, update.set || {})\<close>, then the history append if provided.\<close>

definition updateItem :: "update \<Rightarrow> obj \<Rightarrow> obj outcome" where
  "updateItem u item =
     (let item1 = assign item (setOf u)
      in case box_history_append u of
           None \<Rightarrow> Returned item1
         | Some app \<Rightarrow> appendBoxHistory app item1)"

text \<open>Lines 85--97, the callback of \<^verbatim>\<open>delta.updated.forEach\<close> for one entry.\<close>

definition applyUpdate :: "obj list \<Rightarrow> update \<Rightarrow> obj list outcome" where
  "applyUpdate items u =
     (case findIndex (has_id (upd_id u)) items of
        None \<Rightarrow> Returned items
      | Some i \<Rightarrow>
          (case updateItem u (items ! i) of
             Returned item' \<Rightarrow> Returned (items[i := item'])
           | Raised item' \<Rightarrow> Raised (items[i := item'])))"

text \<open>\<^verbatim>\<open>forEach\<close> over the update entries: an exception ends the loop.\<close>

fun applyUpdates :: "obj list \<Rightarrow> update list \<Rightarrow> obj list outcome" where
  "applyUpdates items [] = Returned items"
| "applyUpdates items (u # us) =
     (case applyUpdate items u of
        Returned items' \<Rightarrow> applyUpdates items' us
      | Raised items' \<Rightarrow> Raised items')"

text \<open>Lines 102--107, the callback of \<^verbatim>\<open>delta.removed.forEach\<close>:
  \<^verbatim>\<open>splice(itemIndex, 1)\<close> at the first item with that id, if any.\<close>

definition removeId :: "string \<Rightarrow> obj list \<Rightarrow> obj list" where
  "removeId itemId items =
     (case findIndex (has_id itemId) items of
        None \<Rightarrow> items
      | Some i \<Rightarrow> take i items @ drop (Suc i) items)"

text \<open>Lines 77--109. The three phases run in the order added, updated, removed; the
  added items are pushed without looking at the ids already present.\<close>

definition mergeDelta :: "obj list \<Rightarrow> delta \<Rightarrow> obj list outcome" where
  "mergeDelta items d =
     (let items1 = (case added d of None \<Rightarrow> items | Some new \<Rightarrow> items @ new)
      in case (case updated d of
                 None \<Rightarrow> Returned items1
               | Some us \<Rightarrow> applyUpdates items1 us) of
           Raised items2 \<Rightarrow> Raised items2
         | Returned items2 \<Rightarrow>
             Returned (case removed d of
                         None \<Rightarrow> items2
                       | Some rs \<Rightarrow> fold removeId rs items2))"

section \<open>Edit overlay: \<^verbatim>\<open>applyLocalEdits\<close>\<close>

text \<open>Lines 133--134, for the item that was found:
  \<^verbatim>\<open>Object.assign(item, edit.set); item._edited = true\<close>.\<close>

definition editItem :: "edit \<Rightarrow> obj \<Rightarrow> obj" where
  "editItem e item = AList.update ''_edited'' (JBool True) (assign item (edit_set e))"

text \<open>Lines 130--136, the callback for one overlay entry: \<^verbatim>\<open>find\<close> returns the first
  item with the entry's id; when there is one, it is edited in place.\<close>

definition applyEdit :: "edit \<Rightarrow> obj list \<Rightarrow> obj list" where
  "applyEdit e items =
     (case findIndex (has_id (edit_id e)) items of
        None \<Rightarrow> items
      | Some i \<Rightarrow> items[i := editItem e (items ! i)])"

definition applyLocalEdits :: "obj list \<Rightarrow> overlay \<Rightarrow> obj list" where
  "applyLocalEdits items ov = fold applyEdit (edited ov) items"

section \<open>Edit overlay: \<^verbatim>\<open>loadLocalEdits\<close>, \<^verbatim>\<open>addLocalEdit\<close> and the inline editor\<close>

text \<open>What \<^verbatim>\<open>localStorage.getItem('catalog_edits')\<close> does: it throws (storage not
  accessible), returns \<^verbatim>\<open>null\<close>, or returns the stored string.\<close>

datatype storage_read = ReadThrows | NoItem | Item string

text \<open>The exceptions of that \<^verbatim>\<open>try\<close> block: the storage read's and the parser's.\<close>

datatype exn = SecurityError | SyntaxError

definition emptyOverlay :: json where
  "emptyOverlay = JObj [(''edited'', JArr [])]"

text \<open>Lines 113--114, the \<^verbatim>\<open>try\<close> block. \<^verbatim>\<open>JSON.parse\<close> is a parameter: \<open>None\<close> is its
  \<^verbatim>\<open>SyntaxError\<close>. The empty string is falsy, so it is not parsed.\<close>

definition loadLocalEdits_try :: "(string \<Rightarrow> json option) \<Rightarrow> storage_read \<Rightarrow> exn + json" where
  "loadLocalEdits_try parse r =
     (case r of
        ReadThrows \<Rightarrow> Inl SecurityError
      | NoItem \<Rightarrow> Inr emptyOverlay
      | Item edits \<Rightarrow>
          if edits \<noteq> [] then (case parse edits of None \<Rightarrow> Inl SyntaxError | Some v \<Rightarrow> Inr v)
          else Inr emptyOverlay)"

text \<open>Lines 111--119: the \<^verbatim>\<open>catch\<close> clause logs the error and returns the default.\<close>

definition loadLocalEdits :: "(string \<Rightarrow> json option) \<Rightarrow> storage_read \<Rightarrow> exn + json" where
  "loadLocalEdits parse r =
     (case loadLocalEdits_try parse r of
        Inl err \<Rightarrow> Inr emptyOverlay
      | Inr v \<Rightarrow> Inr v)"

text \<open>The application state that the engine reads and writes. \<open>warnings\<close> collects the
  \<^verbatim>\<open>console.warn\<close> messages, \<open>errorShown\<close> is the message passed to \<^verbatim>\<open>showError\<close>.
  The three filter vocabularies are JavaScript \<^verbatim>\<open>Set\<close>s, kept in insertion order.\<close>

record app =
  items :: "obj list"
  localEdits :: overlay
  catalogVersion :: string
  lastUpdated :: string
  allBoxes :: "json option list"
  allCategories :: "json option list"
  allPeople :: "json list"
  warnings :: "string list"
  errorShown :: "string option"

text \<open>Lines 5--14, the constructor, given the overlay that \<^verbatim>\<open>loadLocalEdits\<close> returned.\<close>

definition newApp :: "overlay \<Rightarrow> app" where
  "newApp ov = \<lparr>items = [], localEdits = ov, catalogVersion = [], lastUpdated = [],
     allBoxes = [], allCategories = [], allPeople = [], warnings = [], errorShown = None\<rparr>"

text \<open>Lines 139--158. \<open>now\<close> is \<^verbatim>\<open>new Date().toISOString()\<close>. The entry for the item is
  found or created, the field is set on it, and the item in memory, if there is one, gets
  the value and the \<^verbatim>\<open>_edited\<close> mark. \<^verbatim>\<open>saveLocalEdits\<close> writes the overlay to storage
  and swallows every error; it does not change the state modelled here.\<close>

definition addLocalEdit :: "string \<Rightarrow> string \<Rightarrow> string \<Rightarrow> string \<Rightarrow> app \<Rightarrow> app" where
  "addLocalEdit now itemId field val st =
     (let es = edited (localEdits st);
          found = findIndex (\<lambda>e. edit_id e = itemId) es;
          es1 = (case found of None \<Rightarrow> es @ [\<lparr>edit_id = itemId, edit_set = []\<rparr>] | Some j \<Rightarrow> es);
          j = (case found of None \<Rightarrow> length es | Some j \<Rightarrow> j);
          es2 = es1[j := (es1 ! j)\<lparr>edit_set := AList.update field (JStr val) (edit_set (es1 ! j))\<rparr>];
          items1 = (case findIndex (has_id itemId) (items st) of
                      None \<Rightarrow> items st
                    | Some i \<Rightarrow> (items st)[i := AList.update ''_edited'' (JBool True)
                                                (AList.update field (JStr val) (items st ! i))])
      in st\<lparr>localEdits := \<lparr>edited = es2, timestamp = Some now\<rparr>, items := items1\<rparr>)"

text \<open>\<^verbatim>\<open>String.prototype.trim\<close> on the white space of Latin-1.\<close>

definition is_space :: "char \<Rightarrow> bool" where
  "is_space c \<longleftrightarrow> c \<in> set [CHR 0x09, CHR 0x0A, CHR 0x0B, CHR 0x0C, CHR 0x0D, CHR 0x20, CHR 0xA0]"

definition trim :: "string \<Rightarrow> string" where
  "trim s = rev (dropWhile is_space (rev (dropWhile is_space s)))"

text \<open>Lines 508--518, \<^verbatim>\<open>saveEdit\<close> of the inline editor, the only caller of
  \<^verbatim>\<open>addLocalEdit\<close>: \<open>inputValue\<close> is \<^verbatim>\<open>input.value\<close>, \<open>currentValue\<close> the trimmed text the
  field showed. The DOM updates are not part of the state.\<close>

definition saveEdit :: "string \<Rightarrow> string \<Rightarrow> string \<Rightarrow> string \<Rightarrow> string \<Rightarrow> app \<Rightarrow> app" where
  "saveEdit now itemId fieldName currentValue inputValue st =
     (let newValue = trim inputValue
      in if newValue \<noteq> [] \<and> newValue \<noteq> currentValue
         then addLocalEdit now itemId fieldName newValue st
         else st)"

section \<open>Snapshot loader: \<^verbatim>\<open>loadCatalogData\<close>\<close>

record base_doc =
  base_items :: "obj list option"
  catalog_version :: "string option"

record manifest =
  deltas :: "string list option"
  last_updated :: "string option"

text \<open>\<^verbatim>\<open>x || d\<close> for an optional string: absent and empty are falsy.\<close>

definition orElse :: "string option \<Rightarrow> string \<Rightarrow> string" where
  "orElse x d = (case x of None \<Rightarrow> d | Some s \<Rightarrow> if s = [] then d else s)"

text \<open>\<^verbatim>\<open>Set.prototype.add\<close>.\<close>

definition setAdd :: "'a \<Rightarrow> 'a list \<Rightarrow> 'a list" where
  "setAdd x s = (if x \<in> set s then s else s @ [x])"

text \<open>Lines 63--69, the callback for one item. \<^verbatim>\<open>forEach\<close> exists on arrays only: a truthy
  \<^verbatim>\<open>people\<close> that is not an array throws a \<^verbatim>\<open>TypeError\<close>.\<close>

definition collectItem :: "obj \<Rightarrow> app \<Rightarrow> app outcome" where
  "collectItem item st =
     (let st1 = st\<lparr>allBoxes := setAdd (map_of item ''box_id'') (allBoxes st),
                   allCategories := setAdd (map_of item ''category'') (allCategories st)\<rparr>
      in case map_of item ''people'' of
           None \<Rightarrow> Returned st1
         | Some p \<Rightarrow>
             if truthy p
             then (case p of
                     JArr persons \<Rightarrow> Returned (st1\<lparr>allPeople := fold setAdd persons (allPeople st1)\<rparr>)
                   | _ \<Rightarrow> Raised st1)
             else Returned st1)"

fun collectFilters :: "obj list \<Rightarrow> app \<Rightarrow> app outcome" where
  "collectFilters [] st = Returned st"
| "collectFilters (item # rest) st =
     (case collectItem item st of
        Returned st' \<Rightarrow> collectFilters rest st'
      | Raised st' \<Rightarrow> Raised st')"

text \<open>Lines 43--51. \<open>fetch\<close> gives the parsed delta of a file name, \<open>None\<close> when the fetch
  or the parse throws. Whatever is thrown inside the loop body, also by \<^verbatim>\<open>mergeDelta\<close>, is
  caught there, a warning is logged, and the loop goes on with the items as they are.\<close>

fun mergeDeltaFiles :: "(string \<Rightarrow> delta option) \<Rightarrow> string list \<Rightarrow> app \<Rightarrow> app" where
  "mergeDeltaFiles fetch [] st = st"
| "mergeDeltaFiles fetch (deltaFile # rest) st =
     mergeDeltaFiles fetch rest
       (case fetch deltaFile of
          None \<Rightarrow> st\<lparr>warnings := warnings st @ [''Could not load delta: '' @ deltaFile]\<rparr>
        | Some d \<Rightarrow>
            (case mergeDelta (items st) d of
               Returned items' \<Rightarrow> st\<lparr>items := items'\<rparr>
             | Raised items' \<Rightarrow>
                 st\<lparr>items := items',
                    warnings := warnings st @ [''Could not load delta: '' @ deltaFile]\<rparr>))"

definition loadFailedMessage :: string where
  "loadFailedMessage = ''Failed to load catalog data. Please check that data files exist.''"

text \<open>Lines 28--75. \<open>base\<close> and \<open>index\<close> are the parsed base snapshot and updates index,
  \<open>None\<close> when fetching or parsing them throws. The outer \<^verbatim>\<open>catch\<close> receives whatever is
  thrown by the base load, by the overlay application or by the collection of the filter
  values, and shows the error.\<close>

definition loadCatalogData ::
  "base_doc option \<Rightarrow> manifest option \<Rightarrow> (string \<Rightarrow> delta option) \<Rightarrow> app \<Rightarrow> app" where
  "loadCatalogData base index fetch st =
     (case base of
        None \<Rightarrow> st\<lparr>errorShown := Some loadFailedMessage\<rparr>
      | Some baseData \<Rightarrow>
          (let st1 = st\<lparr>items := (case base_items baseData of None \<Rightarrow> [] | Some its \<Rightarrow> its),
                        catalogVersion := orElse (catalog_version baseData) ''1.0.0''\<rparr>;
               st2 = (case index of
                        None \<Rightarrow>
                          st1\<lparr>warnings := warnings st1 @ [''No updates index found, using base data only''],
                              lastUpdated := orElse (catalog_version baseData) ''N/A''\<rparr>
                      | Some updatesIndex \<Rightarrow>
                          (mergeDeltaFiles fetch
                             (case deltas updatesIndex of None \<Rightarrow> [] | Some fs \<Rightarrow> fs) st1)
                            \<lparr>lastUpdated := orElse (last_updated updatesIndex) ''N/A''\<rparr>);
               st3 = st2\<lparr>items := applyLocalEdits (items st2) (localEdits st2)\<rparr>
           in case collectFilters (items st3) st3 of
                Returned st4 \<Rightarrow> st4
              | Raised st4 \<Rightarrow> st4\<lparr>errorShown := Some loadFailedMessage\<rparr>))"

section \<open>Notions used in the statements\<close>

text \<open>The value that a property \<open>k\<close> holds after the assignments of \<open>s\<close>, starting
  from the value \<open>d\<close>: the last one that \<open>s\<close> assigns to \<open>k\<close>, if any.\<close>

definition lastval :: "string \<Rightarrow> json \<Rightarrow> obj \<Rightarrow> json" where
  "lastval k d s = fold (\<lambda>(k', v') acc. if k' = k then v' else acc) s d"

text \<open>No two items of the collection share the same \<^verbatim>\<open>id\<close>.\<close>

definition distinct_ids :: "obj list \<Rightarrow> bool" where
  "distinct_ids coll \<longleftrightarrow> distinct (map idOf coll)"

text \<open>A \<^verbatim>\<open>set\<close> that does not assign \<^verbatim>\<open>id\<close>.\<close>

definition keeps_id :: "obj \<Rightarrow> bool" where
  "keeps_id s \<longleftrightarrow> ''id'' \<notin> fst ` set s"

text \<open>The three lists of a delta, an absent list read as empty.\<close>

definition addedOf :: "delta \<Rightarrow> obj list" where
  "addedOf d = (case added d of None \<Rightarrow> [] | Some new \<Rightarrow> new)"

definition updatedOf :: "delta \<Rightarrow> update list" where
  "updatedOf d = (case updated d of None \<Rightarrow> [] | Some us \<Rightarrow> us)"

definition removedOf :: "delta \<Rightarrow> string list" where
  "removedOf d = (case removed d of None \<Rightarrow> [] | Some rs \<Rightarrow> rs)"

text \<open>The properties that the entries targeting an item assign, in order.\<close>

definition setsFor :: "update list \<Rightarrow> obj \<Rightarrow> obj" where
  "setsFor us item = concat (map setOf (filter (\<lambda>u. has_id (upd_id u) item) us))"

text \<open>\<^verbatim>\<open>baseData.items || []\<close> and \<^verbatim>\<open>updatesIndex.deltas || []\<close>.\<close>

definition baseItemsOf :: "base_doc \<Rightarrow> obj list" where
  "baseItemsOf b = (case base_items b of None \<Rightarrow> [] | Some its \<Rightarrow> its)"

definition deltasOf :: "manifest \<Rightarrow> string list" where
  "deltasOf m = (case deltas m of None \<Rightarrow> [] | Some fs \<Rightarrow> fs)"

text \<open>What the loop over the delta files does to the items alone: a file that does not
  load is passed over, a delta that loads is merged, and the items are kept as they are
  when the merge throws.\<close>

fun replayDeltas :: "(string \<Rightarrow> delta option) \<Rightarrow> string list \<Rightarrow> obj list \<Rightarrow> obj list" where
  "replayDeltas fetch [] c = c"
| "replayDeltas fetch (f # fs) c =
     replayDeltas fetch fs (case fetch f of None \<Rightarrow> c | Some d \<Rightarrow> after (mergeDelta c d))"

text \<open>\<^verbatim>\<open>Array.isArray\<close>.\<close>

fun is_array :: "json \<Rightarrow> bool" where
  "is_array (JArr xs) = True"
| "is_array v = False"

text \<open>An object whose \<^verbatim>\<open>box_history\<close>, if it has one, is an array or falsy: the values on
  which \<^verbatim>\<open>(item.box_history || []).push\<close> is defined.\<close>

definition history_ok :: "obj \<Rightarrow> bool" where
  "history_ok item \<longleftrightarrow> (\<forall>(k, v)\<in>set item. k = ''box_history'' \<longrightarrow> \<not> truthy v \<or> is_array v)"

text \<open>\<^verbatim>\<open>item.box_history || []\<close> as a list of entries.\<close>

definition historyOf :: "obj \<Rightarrow> json list" where
  "historyOf item = (case map_of item ''box_history'' of Some (JArr xs) \<Rightarrow> xs | _ \<Rightarrow> [])"

text \<open>What an update entry makes of the item it targets, when the append is defined.\<close>

definition updatedItem :: "update \<Rightarrow> obj \<Rightarrow> obj" where
  "updatedItem u item =
     (case box_history_append u of
        None \<Rightarrow> assign item (setOf u)
      | Some app \<Rightarrow>
          AList.update ''box_history'' (JArr (historyOf (assign item (setOf u)) @ app))
            (assign item (setOf u)))"

text \<open>\<open>j\<close> is the position of the first item of the collection whose \<^verbatim>\<open>id\<close> is \<open>r\<close>.\<close>

definition first_with_id :: "string \<Rightarrow> obj list \<Rightarrow> nat \<Rightarrow> bool" where
  "first_with_id r coll j \<longleftrightarrow>
     j < length coll \<and> has_id r (coll ! j) \<and> (\<forall>k<j. \<not> has_id r (coll ! k))"

text \<open>An overlay with at most one entry per item id, as \<^verbatim>\<open>addLocalEdit\<close> keeps it, and
  with no \<^verbatim>\<open>set\<close> that assigns \<^verbatim>\<open>id\<close> (no editable field is \<^verbatim>\<open>id\<close>).\<close>

definition overlay_ok :: "overlay \<Rightarrow> bool" where
  "overlay_ok ov \<longleftrightarrow>
     distinct (map edit_id (edited ov)) \<and> (\<forall>e\<in>set (edited ov). keeps_id (edit_set e))"

text \<open>An item whose \<^verbatim>\<open>people\<close>, if it has any, is an array or falsy: the values on which
  \<^verbatim>\<open>if (item.people) item.people.forEach(...)\<close> is defined.\<close>

definition people_ok :: "obj \<Rightarrow> bool" where
  "people_ok item \<longleftrightarrow>
     (case map_of item ''people'' of None \<Rightarrow> True | Some p \<Rightarrow> \<not> truthy p \<or> is_array p)"

section \<open>Example documents\<close>

text \<open>A history entry that is open (\<^verbatim>\<open>to: null\<close>), and another one.\<close>

definition ex_hist_old :: json where
  "ex_hist_old = JObj [(''box_id'', JStr ''DO3M''), (''from'', JStr ''2025-01-06''), (''to'', JNull)]"

definition ex_hist_new :: json where
  "ex_hist_new = JObj [(''box_id'', JStr ''S''), (''from'', JStr ''2025-02-01''), (''to'', JNull)]"

definition ex_item1 :: obj where
  "ex_item1 = [(''id'', JStr ''it_1''), (''box_id'', JStr ''DO3M''), (''notes'', JStr ''old''),
     (''box_history'', JArr [ex_hist_old])]"

definition ex_item2 :: obj where
  "ex_item2 = [(''id'', JStr ''it_2''), (''item_name'', JStr ''Teapot'')]"

definition ex_upd_absent :: update where
  "ex_upd_absent = \<lparr>upd_id = ''it_9'', upd_set = Some [(''notes'', JStr ''fragile'')],
     box_history_append = None\<rparr>"

text \<open>A stored overlay document,
  \<^verbatim>\<open>{"edited":[{"id":"it_1","set":{"notes":"fragile"}}]}\<close>, and what it parses to.\<close>

definition quoted :: "string \<Rightarrow> string" where
  "quoted s = CHR 0x22 # s @ [CHR 0x22]"

definition ex_stored :: string where
  "ex_stored = ''{'' @ quoted ''edited'' @ '':[{'' @ quoted ''id'' @ '':'' @ quoted ''it_1'' @ '',''
     @ quoted ''set'' @ '':{'' @ quoted ''notes'' @ '':'' @ quoted ''fragile'' @ ''}}]}''"

definition ex_stored_overlay :: json where
  "ex_stored_overlay =
     JObj [(''edited'', JArr [JObj [(''id'', JStr ''it_1''),
                                    (''set'', JObj [(''notes'', JStr ''fragile'')])]])]"

text \<open>A stand-in for \<^verbatim>\<open>JSON.parse\<close> that accepts two documents only.\<close>

definition ex_parse :: "string \<Rightarrow> json option" where
  "ex_parse s =
     (if s = ex_stored then Some ex_stored_overlay
      else if s = ''null'' then Some JNull else None)"

definition ex_app :: app where
  "ex_app = (newApp \<lparr>edited = [\<lparr>edit_id = ''it_1'', edit_set = [(''notes'', JStr ''fragile'')]\<rparr>],
                      timestamp = None\<rparr>)\<lparr>items := [ex_item1, ex_item2]\<rparr>"

definition ex_item1_again :: obj where
  "ex_item1_again = [(''id'', JStr ''it_1''), (''item_name'', JStr ''Letter'')]"

definition ex_base :: base_doc where
  "ex_base = \<lparr>base_items = Some [ex_item1], catalog_version = Some ''1.0.0''\<rparr>"

definition ex_delta_dup :: delta where
  "ex_delta_dup = \<lparr>added = Some [ex_item1_again], updated = None, removed = None\<rparr>"

definition ex_index_dup :: manifest where
  "ex_index_dup = \<lparr>deltas = Some [''2025-02-01.json''], last_updated = Some ''2025-02-01''\<rparr>"

definition ex_fetch_dup :: "string \<Rightarrow> delta option" where
  "ex_fetch_dup f = (if f = ''2025-02-01.json'' then Some ex_delta_dup else None)"

definition ex_no_edits :: overlay where
  "ex_no_edits = \<lparr>edited = [], timestamp = None\<rparr>"

definition ex_upd_notes :: update where
  "ex_upd_notes = \<lparr>upd_id = ''it_1'', upd_set = Some [(''notes'', JStr ''fragile'')],
     box_history_append = None\<rparr>"

definition ex_delta :: delta where
  "ex_delta = \<lparr>added = Some [ex_item2], updated = Some [ex_upd_notes], removed = Some [''it_2'']\<rparr>"

definition ex_edit :: edit where
  "ex_edit = \<lparr>edit_id = ''it_1'', edit_set = [(''item_name'', JStr ''Family letter'')]\<rparr>"

definition ex_overlay :: overlay where
  "ex_overlay = \<lparr>edited = [ex_edit], timestamp = Some ''2025-02-01T10:00:00.000Z''\<rparr>"

definition ex_delta_plain :: delta where
  "ex_delta_plain = \<lparr>added = None, updated = Some [ex_upd_notes], removed = Some [''it_2'']\<rparr>"

definition ex_delta_add :: delta where
  "ex_delta_add = \<lparr>added = Some [ex_item2], updated = None, removed = None\<rparr>"

definition ex_delta_rm1 :: delta where
  "ex_delta_rm1 = \<lparr>added = None, updated = None, removed = Some [''it_1'']\<rparr>"

definition ex_delta_rm2 :: delta where
  "ex_delta_rm2 = \<lparr>added = None, updated = None, removed = Some [''it_2'']\<rparr>"

definition ex_index_two :: manifest where
  "ex_index_two = \<lparr>deltas = Some [''2025-02-01.json'', ''2025-02-02.json''],
     last_updated = Some ''2025-02-02''\<rparr>"

text \<open>The first delta adds \<^verbatim>\<open>it_1\<close> again, the second removes \<^verbatim>\<open>it_1\<close>.\<close>

definition ex_fetch_dup_rm :: "string \<Rightarrow> delta option" where
  "ex_fetch_dup_rm f =
     (if f = ''2025-02-01.json'' then Some ex_delta_dup
      else if f = ''2025-02-02.json'' then Some ex_delta_rm1 else None)"

text \<open>The first delta adds \<^verbatim>\<open>it_2\<close>, the second removes \<^verbatim>\<open>it_2\<close>.\<close>

definition ex_fetch_add_rm :: "string \<Rightarrow> delta option" where
  "ex_fetch_add_rm f =
     (if f = ''2025-02-01.json'' then Some ex_delta_add
      else if f = ''2025-02-02.json'' then Some ex_delta_rm2 else None)"

definition ex_edit2 :: edit where
  "ex_edit2 = \<lparr>edit_id = ''it_2'', edit_set = [(''item_name'', JStr ''Blue teapot'')]\<rparr>"

definition ex_overlay2 :: overlay where
  "ex_overlay2 = \<lparr>edited = [ex_edit2, ex_edit], timestamp = Some ''2025-02-03T09:00:00.000Z''\<rparr>"

text \<open>An update entry that moves \<^verbatim>\<open>it_1\<close> and appends the new location to its history.\<close>

definition ex_upd_move :: update where
  "ex_upd_move = \<lparr>upd_id = ''it_1'', upd_set = Some [(''box_id'', JStr ''S'')],
     box_history_append = Some [ex_hist_new]\<rparr>"

text \<open>The same entry with a \<^verbatim>\<open>box_history\<close> inside its \<^verbatim>\<open>set\<close>.\<close>

definition ex_upd_replace :: update where
  "ex_upd_replace = \<lparr>upd_id = ''it_1'', upd_set = Some [(''box_history'', JArr [])],
     box_history_append = Some [ex_hist_new]\<rparr>"






definition ex_edit9 :: edit where
  "ex_edit9 = \<lparr>edit_id = ''it_9'', edit_set = [(''notes'', JStr ''lost'')]\<rparr>"

definition ex_overlay9 :: overlay where
  "ex_overlay9 = \<lparr>edited = [ex_edit9, ex_edit], timestamp = Some ''2025-02-03T09:00:00.000Z''\<rparr>"

definition ex_item_people :: obj where
  "ex_item_people = [(''id'', JStr ''it_1''), (''item_name'', JStr ''Letter''),
     (''people'', JArr [JStr ''Ann''])]"

definition ex_base_people :: base_doc where
  "ex_base_people = \<lparr>base_items = Some [ex_item_people], catalog_version = Some ''1.0.0''\<rparr>"

definition ex_index_empty :: manifest where
  "ex_index_empty = \<lparr>deltas = Some [], last_updated = Some ''2025-01-06''\<rparr>"

text \<open>The state after a successful load of that base, and the overlay that the inline editor
  leaves when the People field of \<^verbatim>\<open>it_1\<close> is changed from \<^verbatim>\<open>Ann\<close> to \<^verbatim>\<open>Ann, Bob\<close>.\<close>

definition ex_app_people :: app where
  "ex_app_people = loadCatalogData (Some ex_base_people) (Some ex_index_empty) (\<lambda>f. None)
     (newApp ex_no_edits)"

definition ex_overlay_people :: overlay where
  "ex_overlay_people = \<lparr>edited = [\<lparr>edit_id = ''it_1'', edit_set = [(''people'', JStr ''Ann, Bob'')]\<rparr>],
     timestamp = Some ''2025-02-01T10:00:00.000Z''\<rparr>"

section \<open>Basic facts about lookups\<close>

lemma findIndex_None_iff: "findIndex P xs = None \<longleftrightarrow> (\<forall>x\<in>set xs. \<not> P x)"
  by (induction xs) auto

lemma findIndex_SomeD:
  "findIndex P xs = Some i \<Longrightarrow> i < length xs \<and> P (xs ! i) \<and> (\<forall>j<i. \<not> P (xs ! j))"
proof (induction xs arbitrary: i)
  case Nil
  then show ?case by simp
next
  case (Cons x xs)
  show ?case
  proof (cases "P x")
    case True
    with Cons.prems show ?thesis by simp
  next
    case False
    with Cons.prems obtain k where k: "findIndex P xs = Some k" "i = Suc k"
      by auto
    from Cons.IH[OF k(1)] False k(2) show ?thesis
      by (auto simp: less_Suc_eq_0_disj)
  qed
qed

section \<open>Entries that target an absent id\<close>

lemma applyUpdates_absent:
  "\<forall>u\<in>set us. \<forall>item\<in>set coll. \<not> has_id (upd_id u) item \<Longrightarrow>
   applyUpdates coll us = Returned coll"
  by (induction us) (auto simp: applyUpdate_def findIndex_None_iff[THEN iffD2])

lemma removeIds_absent:
  "\<forall>r\<in>set rs. \<forall>item\<in>set coll. \<not> has_id r item \<Longrightarrow> fold removeId rs coll = coll"
  by (induction rs) (auto simp: removeId_def findIndex_None_iff[THEN iffD2])

section \<open>Facts about \<^verbatim>\<open>Object.assign\<close>\<close>

lemma assign_Nil [simp]: "assign t [] = t"
  by (simp add: assign_def)

lemma assign_Cons_source: "assign t ((k, v) # s) = assign (AList.update k v t) s"
  by (simp add: assign_def)

lemma assign_append: "assign t (s1 @ s2) = assign (assign t s1) s2"
  by (simp add: assign_def)

lemma map_of_assign: "map_of (assign t s) = map_of t ++ map_of (rev s)"
proof (induction s arbitrary: t)
  case Nil
  then show ?case by simp
next
  case (Cons p s)
  obtain k v where p: "p = (k, v)" by (cases p)
  show ?case
    by (auto simp: p assign_Cons_source Cons.IH update_conv' fun_eq_iff map_add_def
        split: option.splits)
qed

lemma map_of_assign_notin:
  "k \<notin> fst ` set s \<Longrightarrow> map_of (assign t s) k = map_of t k"
  by (simp add: map_of_assign map_add_def map_of_eq_None_iff[THEN iffD2] split: option.splits)

lemma assign_Cons_target:
  "assign ((k0, v0) # t) s = (k0, lastval k0 v0 s) # assign t (filter (\<lambda>p. fst p \<noteq> k0) s)"
proof (induction s arbitrary: v0 t)
  case Nil
  then show ?case by (simp add: lastval_def)
next
  case (Cons p s)
  obtain k v where p: "p = (k, v)" by (cases p)
  show ?case
    by (cases "k = k0") (simp_all add: p assign_Cons_source Cons.IH lastval_def)
qed

lemma lastval_idem: "lastval k (lastval k d s) s = lastval k d s"
proof (induction s arbitrary: d rule: rev_induct)
  case Nil
  then show ?case by (simp add: lastval_def)
next
  case (snoc p s)
  then show ?case by (cases p) (simp add: lastval_def)
qed

lemma assign_empty_idem: "assign (assign [] s) s = assign [] s"
proof (induction s rule: length_induct)
  case (1 s)
  show ?case
  proof (cases s)
    case Nil
    then show ?thesis by simp
  next
    case (Cons p s')
    obtain k v where p: "p = (k, v)" by (cases p)
    let ?f = "filter (\<lambda>q. fst q \<noteq> k) s'"
    have len: "length ?f < length s" by (simp add: Cons less_Suc_eq_le)
    have first: "assign [] s = (k, lastval k v s') # assign [] ?f"
      by (simp add: Cons p assign_Cons_source assign_Cons_target)
    have "assign (assign [] s) s = (k, lastval k (lastval k v s') s) # assign (assign [] ?f) (filter (\<lambda>q. fst q \<noteq> k) s)"
      by (simp only: first assign_Cons_target)
    also have "lastval k (lastval k v s') s = lastval k v s'"
      using lastval_idem[of k v s'] by (simp add: Cons p lastval_def)
    also have "filter (\<lambda>q. fst q \<noteq> k) s = ?f" by (simp add: Cons p)
    also have "assign (assign [] ?f) ?f = assign [] ?f"
      using 1 len by blast
    finally show ?thesis by (simp add: first)
  qed
qed

lemma assign_idem: "assign (assign t s) s = assign t s"
proof (induction t arbitrary: s)
  case Nil
  then show ?case by (rule assign_empty_idem)
next
  case (Cons p t)
  obtain k v where p: "p = (k, v)" by (cases p)
  show ?case
    by (simp add: p assign_Cons_target lastval_idem Cons.IH)
qed

section \<open>The ids through updates, edits and removals\<close>

lemma idOf_assign: "keeps_id s \<Longrightarrow> idOf (assign t s) = idOf t"
  by (simp add: idOf_def keeps_id_def map_of_assign_notin)

lemma idOf_update: "k \<noteq> ''id'' \<Longrightarrow> idOf (AList.update k v t) = idOf t"
  by (simp add: idOf_def update_conv')

lemma idOf_appendBoxHistory: "idOf (after (appendBoxHistory app item)) = idOf item"
  by (simp add: appendBoxHistory_def Let_def idOf_update split: json.splits option.splits)

lemma idOf_updateItem: "keeps_id (setOf u) \<Longrightarrow> idOf (after (updateItem u item)) = idOf item"
  by (simp add: updateItem_def Let_def idOf_appendBoxHistory idOf_assign split: option.splits)

lemma idOf_editItem: "keeps_id (edit_set e) \<Longrightarrow> idOf (editItem e item) = idOf item"
  by (simp add: editItem_def idOf_update idOf_assign)

lemma has_id_cong: "idOf a = idOf b \<Longrightarrow> has_id r a = has_id r b"
  by (simp add: has_id_def)

lemma findIndex_cong_ids:
  "map idOf c = map idOf c' \<Longrightarrow> findIndex (has_id r) c = findIndex (has_id r) c'"
proof (induction c arbitrary: c')
  case Nil
  then show ?case by simp
next
  case (Cons x c)
  then obtain y d where c': "c' = y # d" by (cases c') auto
  with Cons.prems have "idOf x = idOf y" "map idOf c = map idOf d" by auto
  with Cons.IH[of d] show ?case by (simp add: c' has_id_def)
qed

lemma map_idOf_list_update:
  "idOf y = idOf (c ! i) \<Longrightarrow> map idOf (c[i := y]) = map idOf c"
  by (metis list_update_id map_update)

lemma ids_applyUpdate:
  "keeps_id (setOf u) \<Longrightarrow> map idOf (after (applyUpdate c u)) = map idOf c"
proof (cases "findIndex (has_id (upd_id u)) c")
  case None
  then show ?thesis by (simp add: applyUpdate_def)
next
  case (Some i)
  assume k: "keeps_id (setOf u)"
  show ?thesis
  proof (cases "updateItem u (c ! i)")
    case (Returned y)
    with idOf_updateItem[OF k, of "c ! i"] have "idOf y = idOf (c ! i)" by simp
    with Some Returned show ?thesis by (simp add: applyUpdate_def map_idOf_list_update)
  next
    case (Raised y)
    with idOf_updateItem[OF k, of "c ! i"] have "idOf y = idOf (c ! i)" by simp
    with Some Raised show ?thesis by (simp add: applyUpdate_def map_idOf_list_update)
  qed
qed

lemma ids_applyUpdates:
  "\<forall>u\<in>set us. keeps_id (setOf u) \<Longrightarrow> map idOf (after (applyUpdates c us)) = map idOf c"
proof (induction us arbitrary: c)
  case Nil
  then show ?case by simp
next
  case (Cons u us)
  from Cons.prems have k: "keeps_id (setOf u)" by simp
  show ?case
  proof (cases "applyUpdate c u")
    case (Returned c1)
    with ids_applyUpdate[OF k, of c] have "map idOf c1 = map idOf c" by simp
    with Cons.IH[of c1] Cons.prems Returned show ?thesis by simp
  next
    case (Raised c1)
    with ids_applyUpdate[OF k, of c] show ?thesis by simp
  qed
qed

lemma ids_applyEdit:
  "keeps_id (edit_set e) \<Longrightarrow> map idOf (applyEdit e c) = map idOf c"
  by (auto simp: applyEdit_def map_idOf_list_update idOf_editItem split: option.splits)

lemma ids_fold_applyEdit:
  "\<forall>e\<in>set es. keeps_id (edit_set e) \<Longrightarrow> map idOf (fold applyEdit es c) = map idOf c"
  by (induction es arbitrary: c) (simp_all add: ids_applyEdit)

lemma removeId_Nil [simp]: "removeId r [] = []"
  by (simp add: removeId_def)

lemma removeId_Cons:
  "removeId r (x # xs) = (if has_id r x then xs else x # removeId r xs)"
  by (simp add: removeId_def split: option.splits)

lemma set_removeId: "set (removeId r c) \<subseteq> set c"
  by (induction c) (auto simp: removeId_Cons)

lemma set_fold_removeId: "set (fold removeId rs c) \<subseteq> set c"
proof (induction rs arbitrary: c)
  case Nil
  then show ?case by simp
next
  case (Cons r rs)
  from Cons.IH[of "removeId r c"] set_removeId[of r c] show ?case by auto
qed

lemma distinct_ids_removeId: "distinct_ids c \<Longrightarrow> distinct_ids (removeId r c)"
proof (induction c)
  case Nil
  then show ?case by simp
next
  case (Cons x xs)
  from set_removeId[of r xs] have "idOf ` set (removeId r xs) \<subseteq> idOf ` set xs" by auto
  with Cons show ?case by (auto simp: removeId_Cons distinct_ids_def)
qed

lemma distinct_ids_fold_removeId: "distinct_ids c \<Longrightarrow> distinct_ids (fold removeId rs c)"
  by (induction rs arbitrary: c) (simp_all add: distinct_ids_removeId)

lemma removeId_removes:
  "distinct_ids c \<Longrightarrow> \<forall>item\<in>set (removeId r c). \<not> has_id r item"
proof (induction c)
  case Nil
  then show ?case by simp
next
  case (Cons x xs)
  show ?case
  proof (cases "has_id r x")
    case True
    with Cons.prems have "\<forall>item\<in>set xs. \<not> has_id r item"
      by (force simp: distinct_ids_def has_id_def)
    with True show ?thesis by (simp add: removeId_Cons)
  next
    case False
    with Cons show ?thesis by (simp add: removeId_Cons distinct_ids_def)
  qed
qed

lemma fold_removeId_removes:
  "distinct_ids c \<Longrightarrow> r \<in> set rs \<Longrightarrow> \<forall>item\<in>set (fold removeId rs c). \<not> has_id r item"
proof (induction rs arbitrary: c)
  case Nil
  then show ?case by simp
next
  case (Cons r' rs)
  show ?case
  proof (cases "r = r'")
    case True
    from removeId_removes[OF Cons.prems(1), of r] set_fold_removeId[of rs "removeId r c"]
    show ?thesis by (auto simp: True)
  next
    case False
    with Cons.prems have "r \<in> set rs" by simp
    from Cons.IH[OF distinct_ids_removeId[OF Cons.prems(1)] this] show ?thesis by simp
  qed
qed

section \<open>The phases of a merge\<close>

lemma mergeDelta_after:
  "after (mergeDelta c d) =
     (let c1 = c @ (case added d of None \<Rightarrow> [] | Some new \<Rightarrow> new);
          r = (case updated d of None \<Rightarrow> Returned c1 | Some us \<Rightarrow> applyUpdates c1 us)
      in case r of Raised c2 \<Rightarrow> c2
         | Returned c2 \<Rightarrow> fold removeId (case removed d of None \<Rightarrow> [] | Some rs \<Rightarrow> rs) c2)"
  by (simp add: mergeDelta_def Let_def split: option.splits outcome.splits)

lemma mergeDelta_phases:
  "mergeDelta c d =
     (case applyUpdates (c @ addedOf d) (updatedOf d) of
        Raised c2 \<Rightarrow> Raised c2
      | Returned c2 \<Rightarrow> Returned (fold removeId (removedOf d) c2))"
  by (simp add: mergeDelta_def addedOf_def updatedOf_def removedOf_def Let_def
      split: option.splits outcome.splits)

lemma distinct_ids_mergeDelta:
  assumes "distinct_ids (c @ addedOf d)" and "\<forall>u\<in>set (updatedOf d). keeps_id (setOf u)"
  shows "distinct_ids (after (mergeDelta c d))"
proof -
  from ids_applyUpdates[OF assms(2), of "c @ addedOf d"] assms(1)
  have *: "distinct_ids (after (applyUpdates (c @ addedOf d) (updatedOf d)))"
    by (simp add: distinct_ids_def)
  show ?thesis
  proof (cases "applyUpdates (c @ addedOf d) (updatedOf d)")
    case (Returned c2)
    with * show ?thesis by (simp add: mergeDelta_phases distinct_ids_fold_removeId)
  next
    case (Raised c2)
    with * show ?thesis by (simp add: mergeDelta_phases)
  qed
qed

lemma distinct_ids_applyLocalEdits:
  assumes "distinct_ids c" and "\<forall>e\<in>set (edited ov). keeps_id (edit_set e)"
  shows "distinct_ids (applyLocalEdits c ov)"
  using assms ids_fold_applyEdit[of "edited ov" c]
  by (simp add: applyLocalEdits_def distinct_ids_def)

section \<open>Updates and removals on a collection with distinct ids\<close>

lemma applyUpdate_Nil [simp]: "applyUpdate [] u = Returned []"
  by (simp add: applyUpdate_def)

lemma applyUpdate_Cons:
  "applyUpdate (x # xs) u =
     (if has_id (upd_id u) x then map_outcome (\<lambda>y. y # xs) (updateItem u x)
      else map_outcome (\<lambda>ys. x # ys) (applyUpdate xs u))"
  by (simp add: applyUpdate_def split: option.splits outcome.splits)

lemma updateItem_plain:
  "box_history_append u = None \<Longrightarrow> updateItem u item = Returned (assign item (setOf u))"
  by (simp add: updateItem_def)

lemma applyUpdate_plain_map:
  assumes "box_history_append u = None" and "distinct_ids c"
  shows "applyUpdate c u =
    Returned (map (\<lambda>item. if has_id (upd_id u) item then assign item (setOf u) else item) c)"
  using assms(2)
proof (induction c)
  case Nil
  then show ?case by simp
next
  case (Cons x xs)
  show ?case
  proof (cases "has_id (upd_id u) x")
    case True
    with Cons.prems have "\<forall>item\<in>set xs. \<not> has_id (upd_id u) item"
      by (force simp: distinct_ids_def has_id_def)
    then have "map (\<lambda>item. if has_id (upd_id u) item then assign item (setOf u) else item) xs = xs"
      by (simp add: map_idI)
    with True show ?thesis by (simp add: applyUpdate_Cons updateItem_plain[OF assms(1)])
  next
    case False
    with Cons show ?thesis by (simp add: applyUpdate_Cons distinct_ids_def)
  qed
qed

lemma keeps_id_setsFor: "\<forall>u\<in>set us. keeps_id (setOf u) \<Longrightarrow> keeps_id (setsFor us item)"
  by (auto simp: keeps_id_def setsFor_def)

lemma setsFor_cong: "idOf a = idOf b \<Longrightarrow> setsFor us a = setsFor us b"
  by (simp add: setsFor_def has_id_def)

lemma applyUpdates_plain_map:
  assumes "\<forall>u\<in>set us. box_history_append u = None \<and> keeps_id (setOf u)" and "distinct_ids c"
  shows "applyUpdates c us = Returned (map (\<lambda>item. assign item (setsFor us item)) c)"
  using assms
proof (induction us arbitrary: c)
  case Nil
  then show ?case by (simp add: setsFor_def)
next
  case (Cons u us)
  let ?step = "\<lambda>item. if has_id (upd_id u) item then assign item (setOf u) else item"
  from Cons.prems have u: "box_history_append u = None" "keeps_id (setOf u)" by simp_all
  have step: "applyUpdate c u = Returned (map ?step c)"
    by (rule applyUpdate_plain_map[OF u(1) Cons.prems(2)])
  have ids: "idOf (?step item) = idOf item" for item
    by (simp add: idOf_assign u(2))
  then have "map idOf (map ?step c) = map idOf c" by simp
  with Cons.prems(2) have d: "distinct_ids (map ?step c)"
    unfolding distinct_ids_def by (simp only:)
  have "assign (?step item) (setsFor us (?step item)) = assign item (setsFor (u # us) item)" for item
    using setsFor_cong[OF ids, of us item]
    by (simp add: setsFor_def assign_append)
  with Cons.IH[OF _ d] Cons.prems(1) step show ?case by simp
qed

lemma removeId_filter:
  "distinct_ids c \<Longrightarrow> removeId r c = filter (\<lambda>item. \<not> has_id r item) c"
proof (induction c)
  case Nil
  then show ?case by simp
next
  case (Cons x xs)
  show ?case
  proof (cases "has_id r x")
    case True
    with Cons.prems have "\<forall>item\<in>set xs. \<not> has_id r item"
      by (force simp: distinct_ids_def has_id_def)
    with True show ?thesis by (simp add: removeId_Cons)
  next
    case False
    with Cons show ?thesis by (simp add: removeId_Cons distinct_ids_def)
  qed
qed

lemma fold_removeId_filter:
  "distinct_ids c \<Longrightarrow> fold removeId rs c = filter (\<lambda>item. \<forall>r\<in>set rs. \<not> has_id r item) c"
proof (induction rs arbitrary: c)
  case Nil
  then show ?case by simp
next
  case (Cons r rs)
  have d: "distinct_ids (removeId r c)" by (rule distinct_ids_removeId[OF Cons.prems])
  have "fold removeId (r # rs) c = filter (\<lambda>item. \<forall>r\<in>set rs. \<not> has_id r item) (removeId r c)"
    using Cons.IH[OF d] by simp
  also have "\<dots> = filter (\<lambda>item. \<forall>r\<in>set rs. \<not> has_id r item)
                      (filter (\<lambda>item. \<not> has_id r item) c)"
    by (simp only: removeId_filter[OF Cons.prems])
  also have "\<dots> = filter (\<lambda>item. \<forall>r'\<in>set (r # rs). \<not> has_id r' item) c"
    by (simp add: conj_commute)
  finally show ?case .
qed

section \<open>The loader in terms of the items\<close>

lemma items_mergeDeltaFiles:
  "items (mergeDeltaFiles fetch fs st) = replayDeltas fetch fs (items st)"
proof (induction fs arbitrary: st)
  case Nil
  then show ?case by simp
next
  case (Cons f fs)
  show ?case
    by (simp add: Cons.IH split: option.splits outcome.splits)
qed

lemma localEdits_mergeDeltaFiles:
  "localEdits (mergeDeltaFiles fetch fs st) = localEdits st"
proof (induction fs arbitrary: st)
  case Nil
  then show ?case by simp
next
  case (Cons f fs)
  show ?case
    by (simp add: Cons.IH split: option.splits outcome.splits)
qed

lemma items_collectItem: "items (after (collectItem item st)) = items st"
  by (simp add: collectItem_def Let_def split: option.splits json.splits)

lemma items_collectFilters: "items (after (collectFilters c st)) = items st"
proof (induction c arbitrary: st)
  case Nil
  then show ?case by simp
next
  case (Cons x c)
  show ?case
  proof (cases "collectItem x st")
    case (Returned st')
    with items_collectItem[of x st] Cons.IH[of st'] show ?thesis by simp
  next
    case (Raised st')
    with items_collectItem[of x st] show ?thesis by simp
  qed
qed

lemma items_loadCatalogData:
  "items (loadCatalogData (Some b) (Some m) fetch st) =
     applyLocalEdits (replayDeltas fetch (deltasOf m) (baseItemsOf b)) (localEdits st)"
proof -
  define st3 where "st3 = (let st1 = st\<lparr>items := baseItemsOf b,
                        catalogVersion := orElse (catalog_version b) ''1.0.0''\<rparr>;
               st2 = (mergeDeltaFiles fetch (deltasOf m) st1)
                            \<lparr>lastUpdated := orElse (last_updated m) ''N/A''\<rparr>
           in st2\<lparr>items := applyLocalEdits (items st2) (localEdits st2)\<rparr>)"
  have i3: "items st3 = applyLocalEdits (replayDeltas fetch (deltasOf m) (baseItemsOf b)) (localEdits st)"
    by (simp add: st3_def Let_def items_mergeDeltaFiles localEdits_mergeDeltaFiles)
  have "loadCatalogData (Some b) (Some m) fetch st =
      (case collectFilters (items st3) st3 of
         Returned st4 \<Rightarrow> st4
       | Raised st4 \<Rightarrow> st4\<lparr>errorShown := Some loadFailedMessage\<rparr>)"
    by (simp add: loadCatalogData_def st3_def Let_def baseItemsOf_def deltasOf_def)
  then have "items (loadCatalogData (Some b) (Some m) fetch st) = items (after (collectFilters (items st3) st3))"
    by (simp split: outcome.splits)
  with items_collectFilters[of "items st3" st3] i3 show ?thesis by simp
qed

section \<open>A merge without additions and without history appends\<close>

lemma idOf_assign_setsFor:
  "\<forall>u\<in>set us. keeps_id (setOf u) \<Longrightarrow> idOf (assign item (setsFor us item)) = idOf item"
  by (simp add: idOf_assign keeps_id_setsFor)

lemma mergeDelta_plain_normal_form:
  assumes "addedOf d = []"
    and us: "\<forall>u\<in>set (updatedOf d). box_history_append u = None \<and> keeps_id (setOf u)"
    and dist: "distinct_ids c"
  shows "mergeDelta c d =
    Returned (filter (\<lambda>item. \<forall>r\<in>set (removedOf d). \<not> has_id r item)
                (map (\<lambda>item. assign item (setsFor (updatedOf d) item)) c))"
proof -
  let ?U = "\<lambda>item. assign item (setsFor (updatedOf d) item)"
  from us have k: "\<forall>u\<in>set (updatedOf d). keeps_id (setOf u)" by simp
  have "map idOf (map ?U c) = map idOf c"
    by (simp add: idOf_assign_setsFor[OF k])
  with dist have d2: "distinct_ids (map ?U c)"
    unfolding distinct_ids_def by (simp only:)
  show ?thesis
    by (simp add: mergeDelta_phases assms(1) applyUpdates_plain_map[OF us dist]
        fold_removeId_filter[OF d2])
qed

section \<open>An id that no item carries\<close>

lemma absent_iff: "(\<forall>item\<in>set c. \<not> has_id r item) \<longleftrightarrow> Some (JStr r) \<notin> set (map idOf c)"
  by (force simp: has_id_def)

lemma absent_mergeDelta:
  assumes "\<forall>item\<in>set c. \<not> has_id r item"
    and "\<forall>a\<in>set (addedOf d). \<not> has_id r a"
    and k: "\<forall>u\<in>set (updatedOf d). keeps_id (setOf u)"
  shows "\<forall>item\<in>set (after (mergeDelta c d)). \<not> has_id r item"
proof -
  let ?c2 = "after (applyUpdates (c @ addedOf d) (updatedOf d))"
  from assms(1,2) have "\<forall>item\<in>set (c @ addedOf d). \<not> has_id r item" by auto
  then have "Some (JStr r) \<notin> set (map idOf (c @ addedOf d))" by (rule absent_iff[THEN iffD1])
  with ids_applyUpdates[OF k, of "c @ addedOf d"]
  have "Some (JStr r) \<notin> set (map idOf ?c2)" by simp
  then have a2: "\<forall>item\<in>set ?c2. \<not> has_id r item" by (rule absent_iff[THEN iffD2])
  show ?thesis
  proof (cases "applyUpdates (c @ addedOf d) (updatedOf d)")
    case (Returned c2)
    with a2 set_fold_removeId[of "removedOf d" c2] show ?thesis
      by (auto simp: mergeDelta_phases)
  next
    case (Raised c2)
    with a2 show ?thesis by (simp add: mergeDelta_phases)
  qed
qed

lemma absent_replayDeltas:
  assumes "\<forall>item\<in>set c. \<not> has_id r item"
    and "\<forall>f\<in>set fs. \<forall>d. fetch f = Some d \<longrightarrow>
           (\<forall>a\<in>set (addedOf d). \<not> has_id r a) \<and> (\<forall>u\<in>set (updatedOf d). keeps_id (setOf u))"
  shows "\<forall>item\<in>set (replayDeltas fetch fs c). \<not> has_id r item"
  using assms
proof (induction fs arbitrary: c)
  case Nil
  then show ?case by simp
next
  case (Cons f fs)
  let ?c1 = "case fetch f of None \<Rightarrow> c | Some d \<Rightarrow> after (mergeDelta c d)"
  have "\<forall>item\<in>set ?c1. \<not> has_id r item"
  proof (cases "fetch f")
    case None
    with Cons.prems(1) show ?thesis by simp
  next
    case (Some d)
    with Cons.prems(2) have "\<forall>a\<in>set (addedOf d). \<not> has_id r a"
      "\<forall>u\<in>set (updatedOf d). keeps_id (setOf u)" by simp_all
    from absent_mergeDelta[OF Cons.prems(1) this] Some show ?thesis by simp
  qed
  from Cons.IH[OF this] Cons.prems(2) show ?case by simp
qed

lemma replayDeltas_append:
  "replayDeltas fetch (fs @ gs) c = replayDeltas fetch gs (replayDeltas fetch fs c)"
  by (induction fs arbitrary: c) simp_all

lemma removed_after_mergeDelta:
  assumes "mergeDelta c d = Returned mid"
    and "distinct_ids (c @ addedOf d)"
    and k: "\<forall>u\<in>set (updatedOf d). keeps_id (setOf u)"
    and "r \<in> set (removedOf d)"
  shows "\<forall>item\<in>set mid. \<not> has_id r item"
proof -
  from assms(1) obtain c2 where c2: "applyUpdates (c @ addedOf d) (updatedOf d) = Returned c2"
    and mid: "mid = fold removeId (removedOf d) c2"
    by (auto simp: mergeDelta_phases split: outcome.splits)
  from ids_applyUpdates[OF k, of "c @ addedOf d"] c2 assms(2) have "distinct_ids c2"
    by (simp add: distinct_ids_def)
  from fold_removeId_removes[OF this assms(4)] mid show ?thesis by simp
qed

lemma applyEdit_absent:
  "\<forall>item\<in>set c. \<not> has_id (edit_id e) item \<Longrightarrow> applyEdit e c = c"
  by (simp add: applyEdit_def findIndex_None_iff[THEN iffD2])

lemma absent_applyEdit:
  assumes "\<forall>item\<in>set c. \<not> has_id r item" and "keeps_id (edit_set e)"
  shows "\<forall>item\<in>set (applyEdit e c). \<not> has_id r item"
proof -
  from assms(1) have "Some (JStr r) \<notin> set (map idOf c)" by (rule absent_iff[THEN iffD1])
  with ids_applyEdit[OF assms(2), of c] have "Some (JStr r) \<notin> set (map idOf (applyEdit e c))"
    by simp
  then show ?thesis by (rule absent_iff[THEN iffD2])
qed

lemma fold_applyEdit_absent:
  assumes "\<forall>item\<in>set c. \<not> has_id r item" and "\<forall>e\<in>set es. keeps_id (edit_set e)"
  shows "(\<forall>item\<in>set (fold applyEdit es c). \<not> has_id r item)
    \<and> fold applyEdit es c = fold applyEdit (filter (\<lambda>e. edit_id e \<noteq> r) es) c"
  using assms
proof (induction es arbitrary: c)
  case Nil
  then show ?case by simp
next
  case (Cons e es)
  from Cons.prems have k: "keeps_id (edit_set e)" by simp
  have a1: "\<forall>item\<in>set (applyEdit e c). \<not> has_id r item"
    by (rule absent_applyEdit[OF Cons.prems(1) k])
  from Cons.IH[OF a1] Cons.prems(2)
  have ih: "(\<forall>item\<in>set (fold applyEdit es (applyEdit e c)). \<not> has_id r item)"
    "fold applyEdit es (applyEdit e c)
       = fold applyEdit (filter (\<lambda>e. edit_id e \<noteq> r) es) (applyEdit e c)"
    by simp_all
  show ?case
  proof (cases "edit_id e = r")
    case True
    with applyEdit_absent[of c e] Cons.prems(1) have "applyEdit e c = c" by simp
    with ih True show ?thesis by simp
  next
    case False
    with ih show ?thesis by simp
  qed
qed

section \<open>The history append\<close>

lemma appendBoxHistory_array:
  "map_of item ''box_history'' = Some (JArr old) \<Longrightarrow>
   appendBoxHistory app item = Returned (AList.update ''box_history'' (JArr (old @ app)) item)"
  by (simp add: appendBoxHistory_def)

lemma appendBoxHistory_absent:
  "map_of item ''box_history'' = None \<Longrightarrow>
   appendBoxHistory app item = Returned (AList.update ''box_history'' (JArr app) item)"
  by (simp add: appendBoxHistory_def)

lemma applyUpdate_found:
  "findIndex (has_id (upd_id u)) c = Some i \<Longrightarrow> updateItem u (c ! i) = Returned y \<Longrightarrow>
   applyUpdate c u = Returned (c[i := y])"
  by (simp add: applyUpdate_def)

lemma mergeDelta_single_update:
  "mergeDelta c \<lparr>added = None, updated = Some [u], removed = None\<rparr> = applyUpdate c u"
  by (simp add: mergeDelta_def split: outcome.splits)

section \<open>When a merge returns normally\<close>

lemma set_update_subset: "set (AList.update k v al) \<subseteq> insert (k, v) (set al)"
  by (induction al) auto

lemma history_ok_update:
  "history_ok al \<Longrightarrow> (k = ''box_history'' \<longrightarrow> \<not> truthy v \<or> is_array v) \<Longrightarrow>
   history_ok (AList.update k v al)"
  using set_update_subset[of k v al] unfolding history_ok_def by fastforce

lemma history_ok_assign: "history_ok t \<Longrightarrow> history_ok s \<Longrightarrow> history_ok (assign t s)"
proof (induction s arbitrary: t)
  case Nil
  then show ?case by simp
next
  case (Cons p s)
  obtain k v where p: "p = (k, v)" by (cases p)
  from Cons.prems(2) have "k = ''box_history'' \<longrightarrow> \<not> truthy v \<or> is_array v" "history_ok s"
    by (auto simp: p history_ok_def)
  with Cons.IH[of "AList.update k v t"] Cons.prems(1) show ?case
    by (simp add: p assign_Cons_source history_ok_update)
qed


lemma appendBoxHistory_returns:
  assumes "history_ok item"
  shows "appendBoxHistory app item
           = Returned (AList.update ''box_history'' (JArr (historyOf item @ app)) item)"
proof (cases "map_of item ''box_history''")
  case None
  then show ?thesis by (simp add: appendBoxHistory_def historyOf_def)
next
  case (Some v)
  then have "(''box_history'', v) \<in> set item" by (rule map_of_SomeD)
  with assms have "\<not> truthy v \<or> is_array v" by (auto simp: history_ok_def)
  with Some show ?thesis
    by (cases v) (simp_all add: appendBoxHistory_def historyOf_def)
qed


lemma updateItem_returns:
  assumes "history_ok item" and "history_ok (setOf u)"
  shows "updateItem u item = Returned (updatedItem u item) \<and> history_ok (updatedItem u item)"
proof -
  have ok: "history_ok (assign item (setOf u))" by (rule history_ok_assign[OF assms])
  show ?thesis
    by (cases "box_history_append u")
      (simp_all add: updateItem_def updatedItem_def ok appendBoxHistory_returns[OF ok]
        history_ok_update)
qed

lemma applyUpdate_returns:
  assumes "\<forall>item\<in>set c. history_ok item" and "history_ok (setOf u)"
  shows "\<exists>c'. applyUpdate c u = Returned c' \<and> (\<forall>item\<in>set c'. history_ok item)"
proof (cases "findIndex (has_id (upd_id u)) c")
  case None
  with assms(1) show ?thesis by (simp add: applyUpdate_def)
next
  case (Some i)
  from findIndex_SomeD[OF Some] assms(1) have "history_ok (c ! i)" by simp
  from updateItem_returns[OF this assms(2)] Some
  have "applyUpdate c u = Returned (c[i := updatedItem u (c ! i)])"
    and "history_ok (updatedItem u (c ! i))"
    by (simp_all add: applyUpdate_def)
  moreover have "set (c[i := updatedItem u (c ! i)]) \<subseteq> insert (updatedItem u (c ! i)) (set c)"
    by (rule set_update_subset_insert)
  ultimately show ?thesis using assms(1) by auto
qed

lemma applyUpdates_returns:
  assumes "\<forall>item\<in>set c. history_ok item" and "\<forall>u\<in>set us. history_ok (setOf u)"
  shows "\<exists>c'. applyUpdates c us = Returned c' \<and> (\<forall>item\<in>set c'. history_ok item)"
  using assms
proof (induction us arbitrary: c)
  case Nil
  then show ?case by simp
next
  case (Cons u us)
  from Cons.prems have "history_ok (setOf u)" by simp
  from applyUpdate_returns[OF Cons.prems(1) this]
  obtain c1 where c1: "applyUpdate c u = Returned c1" "\<forall>item\<in>set c1. history_ok item" by blast
  from Cons.IH[OF c1(2)] Cons.prems(2) c1(1) show ?case by simp
qed

lemma mergeDelta_returns:
  assumes "\<forall>item\<in>set (c @ addedOf d). history_ok item"
    and "\<forall>u\<in>set (updatedOf d). history_ok (setOf u)"
  shows "\<exists>st. mergeDelta c d = Returned st"
  using applyUpdates_returns[OF assms] by (auto simp: mergeDelta_phases)

section \<open>Following one item through a merge\<close>










section \<open>The overlay on a collection\<close>

lemma map_of_editItem:
  "map_of (editItem e item) k =
     (if k = ''_edited'' then Some (JBool True)
      else case map_of (rev (edit_set e)) k of Some v \<Rightarrow> Some v | None \<Rightarrow> map_of item k)"
  by (simp add: editItem_def update_conv' map_of_assign map_add_def)

lemma map_of_editItem_set:
  assumes "distinct (map fst (edit_set e))" and "(k, v) \<in> set (edit_set e)" and "k \<noteq> ''_edited''"
  shows "map_of (editItem e item) k = Some v"
proof -
  from assms(1) have "distinct (map fst (rev (edit_set e)))" by (metis distinct_rev rev_map)
  moreover from assms(2) have "(k, v) \<in> set (rev (edit_set e))" by simp
  ultimately have "map_of (rev (edit_set e)) k = Some v" by (rule map_of_is_SomeI)
  with assms(3) show ?thesis by (simp add: map_of_editItem)
qed

lemma length_applyEdit [simp]: "length (applyEdit e c) = length c"
  by (simp add: applyEdit_def split: option.splits)

lemma length_fold_applyEdit [simp]: "length (fold applyEdit es c) = length c"
  by (induction es arbitrary: c) simp_all

lemma applyEdit_found:
  "findIndex (has_id (edit_id e)) c = Some i \<Longrightarrow> applyEdit e c = c[i := editItem e (c ! i)]"
  by (simp add: applyEdit_def)

lemma applyEdit_other_index:
  "findIndex (has_id (edit_id e)) c \<noteq> Some i \<Longrightarrow> applyEdit e c ! i = c ! i"
  by (auto simp: applyEdit_def split: option.splits)

lemma findIndex_applyEdit:
  "keeps_id (edit_set e) \<Longrightarrow> findIndex (has_id r) (applyEdit e c) = findIndex (has_id r) c"
  by (rule findIndex_cong_ids) (rule ids_applyEdit)

lemma fold_applyEdit_untouched:
  assumes "\<forall>e\<in>set es. keeps_id (edit_set e)"
    and "\<forall>e\<in>set es. findIndex (has_id (edit_id e)) c \<noteq> Some i"
  shows "fold applyEdit es c ! i = c ! i"
  using assms
proof (induction es arbitrary: c)
  case Nil
  then show ?case by simp
next
  case (Cons e es)
  from Cons.prems have k: "keeps_id (edit_set e)" by simp
  from Cons.prems(2) have "\<forall>e'\<in>set es. findIndex (has_id (edit_id e')) (applyEdit e c) \<noteq> Some i"
    by (simp add: findIndex_applyEdit[OF k])
  with Cons.IH[of "applyEdit e c"] Cons.prems
  have "fold applyEdit es (applyEdit e c) ! i = applyEdit e c ! i" by simp
  with applyEdit_other_index[of e c i] Cons.prems(2) show ?case by simp
qed

lemma findIndex_other_id:
  assumes "findIndex (has_id r) c = Some i" and "r' \<noteq> r"
  shows "findIndex (has_id r') c \<noteq> Some i"
proof
  assume "findIndex (has_id r') c = Some i"
  from findIndex_SomeD[OF this] findIndex_SomeD[OF assms(1)] assms(2) show False
    by (simp add: has_id_def)
qed

lemma fold_applyEdit_target:
  assumes "distinct (map edit_id es)" and "\<forall>e\<in>set es. keeps_id (edit_set e)"
    and "e \<in> set es" and "findIndex (has_id (edit_id e)) c = Some i"
  shows "fold applyEdit es c ! i = editItem e (c ! i)"
  using assms
proof (induction es arbitrary: c)
  case Nil
  then show ?case by simp
next
  case (Cons e0 es)
  from Cons.prems(2) have k0: "keeps_id (edit_set e0)" and ks: "\<forall>e\<in>set es. keeps_id (edit_set e)"
    by simp_all
  from Cons.prems(1) have d: "distinct (map edit_id es)" and fresh: "edit_id e0 \<notin> edit_id ` set es"
    by simp_all
  have idx: "findIndex (has_id (edit_id e)) (applyEdit e0 c) = Some i"
    by (simp add: findIndex_applyEdit[OF k0] Cons.prems(4))
  show ?case
  proof (cases "e0 = e")
    case True
    from findIndex_SomeD[OF Cons.prems(4)] have li: "i < length c" by simp
    have others: "\<forall>e'\<in>set es. findIndex (has_id (edit_id e')) (applyEdit e0 c) \<noteq> Some i"
    proof
      fix e' assume "e' \<in> set es"
      with fresh True have "edit_id e' \<noteq> edit_id e" by (metis imageI)
      from findIndex_other_id[OF idx this]
      show "findIndex (has_id (edit_id e')) (applyEdit e0 c) \<noteq> Some i" .
    qed
    from fold_applyEdit_untouched[OF ks others] applyEdit_found[OF Cons.prems(4)] li True
    show ?thesis by simp
  next
    case False
    with Cons.prems(3) have mem: "e \<in> set es" by simp
    with fresh have "edit_id e0 \<noteq> edit_id e" by (metis imageI)
    from findIndex_other_id[OF Cons.prems(4) this]
    have "applyEdit e0 c ! i = c ! i" by (rule applyEdit_other_index)
    with Cons.IH[OF d ks mem idx] show ?thesis by simp
  qed
qed

lemma fold_applyEdit_all_absent:
  "\<forall>e\<in>set es. \<forall>item\<in>set c. \<not> has_id (edit_id e) item \<Longrightarrow> fold applyEdit es c = c"
  by (induction es) (simp_all add: applyEdit_absent)

section \<open>The load error and the delta files that do not load\<close>

lemma errorShown_collectItem: "errorShown (after (collectItem item st)) = errorShown st"
  by (simp add: collectItem_def Let_def split: option.splits json.splits)

lemma collectItem_returns_iff: "(\<exists>st'. collectItem item st = Returned st') \<longleftrightarrow> people_ok item"
  by (auto simp: collectItem_def people_ok_def Let_def split: option.splits json.splits)

lemma collectFilters_returns_iff:
  "(\<exists>st'. collectFilters c st = Returned st') \<longleftrightarrow> (\<forall>item\<in>set c. people_ok item)"
proof (induction c arbitrary: st)
  case Nil
  then show ?case by simp
next
  case (Cons x c)
  show ?case
  proof (cases "collectItem x st")
    case (Returned st1)
    then have "people_ok x" using collectItem_returns_iff[of x st] by simp
    with Returned Cons.IH[of st1] show ?thesis by simp
  next
    case (Raised st1)
    then have "\<not> people_ok x" using collectItem_returns_iff[of x st] by simp
    with Raised show ?thesis by simp
  qed
qed

lemma errorShown_collectFilters: "errorShown (after (collectFilters c st)) = errorShown st"
proof (induction c arbitrary: st)
  case Nil
  then show ?case by simp
next
  case (Cons x c)
  show ?case
  proof (cases "collectItem x st")
    case (Returned st')
    with errorShown_collectItem[of x st] Cons.IH[of st'] show ?thesis by simp
  next
    case (Raised st')
    with errorShown_collectItem[of x st] show ?thesis by simp
  qed
qed

lemma errorShown_mergeDeltaFiles:
  "errorShown (mergeDeltaFiles fetch fs st) = errorShown st"
proof (induction fs arbitrary: st)
  case Nil
  then show ?case by simp
next
  case (Cons f fs)
  show ?case
    by (simp add: Cons.IH split: option.splits outcome.splits)
qed

text \<open>The deltas that load are merged in the order of the manifest; a file that does not
  load only adds a warning.\<close>

lemma replayDeltas_map_filter:
  "replayDeltas fetch fs c = fold (\<lambda>d c'. after (mergeDelta c' d)) (List.map_filter fetch fs) c"
  by (induction fs arbitrary: c) (simp_all split: option.splits)

lemma mergeDeltaFiles_failed_file:
  "fetch f = None \<Longrightarrow>
   mergeDeltaFiles fetch (f # rest) st =
     mergeDeltaFiles fetch rest (st\<lparr>warnings := warnings st @ [''Could not load delta: '' @ f]\<rparr>)"
  by simp

lemma items_mergeDeltaFiles_failed_file:
  "fetch f = None \<Longrightarrow>
   items (mergeDeltaFiles fetch (pre @ f # post) st) = items (mergeDeltaFiles fetch (pre @ post) st)"
  by (simp add: items_mergeDeltaFiles replayDeltas_append)

text \<open>When the base loads, the load ends in the error message exactly when collecting the
  filter values throws, that is, when some item of the reconciled collection has a
  \<^verbatim>\<open>people\<close> that is truthy and not an array.\<close>

lemma errorShown_loadCatalogData:
  "errorShown (loadCatalogData (Some b) (Some m) fetch (newApp ov)) =
     (if \<forall>item\<in>set (applyLocalEdits (replayDeltas fetch (deltasOf m) (baseItemsOf b)) ov).
           people_ok item
      then None else Some loadFailedMessage)"
proof -
  define st3 where "st3 = (let st1 = (newApp ov)\<lparr>items := baseItemsOf b,
                        catalogVersion := orElse (catalog_version b) ''1.0.0''\<rparr>;
               st2 = (mergeDeltaFiles fetch (deltasOf m) st1)
                            \<lparr>lastUpdated := orElse (last_updated m) ''N/A''\<rparr>
           in st2\<lparr>items := applyLocalEdits (items st2) (localEdits st2)\<rparr>)"
  have i3: "items st3 = applyLocalEdits (replayDeltas fetch (deltasOf m) (baseItemsOf b)) ov"
    by (simp add: st3_def Let_def items_mergeDeltaFiles localEdits_mergeDeltaFiles newApp_def)
  have e3: "errorShown st3 = None"
    by (simp add: st3_def Let_def errorShown_mergeDeltaFiles newApp_def)
  have l: "loadCatalogData (Some b) (Some m) fetch (newApp ov) =
      (case collectFilters (items st3) st3 of
         Returned st4 \<Rightarrow> st4
       | Raised st4 \<Rightarrow> st4\<lparr>errorShown := Some loadFailedMessage\<rparr>)"
    by (simp add: loadCatalogData_def st3_def Let_def baseItemsOf_def deltasOf_def)
  show ?thesis
  proof (cases "collectFilters (items st3) st3")
    case (Returned st4)
    with errorShown_collectFilters[of "items st3" st3] e3 have "errorShown st4 = None" by simp
    moreover from Returned collectFilters_returns_iff[of "items st3" st3]
    have "\<forall>item\<in>set (items st3). people_ok item" by simp
    moreover have "loadCatalogData (Some b) (Some m) fetch (newApp ov) = st4"
      by (simp add: l Returned)
    ultimately show ?thesis by (simp add: i3)
  next
    case (Raised st4)
    with collectFilters_returns_iff[of "items st3" st3]
    have "\<not> (\<forall>item\<in>set (items st3). people_ok item)" by simp
    moreover have "loadCatalogData (Some b) (Some m) fetch (newApp ov)
        = st4\<lparr>errorShown := Some loadFailedMessage\<rparr>"
      by (simp add: l Raised)
    ultimately show ?thesis by (simp add: i3)
  qed
qed

section \<open>What \<^verbatim>\<open>addLocalEdit\<close> records\<close>

lemma findIndex_Some_iff_ex: "(\<exists>i. findIndex P xs = Some i) \<longleftrightarrow> (\<exists>x\<in>set xs. P x)"
  using findIndex_None_iff[of P xs] by (cases "findIndex P xs") auto

text \<open>\<^verbatim>\<open>addLocalEdit\<close> itself records whatever value it is given, the empty string
  included: the guard against empty values is in \<^verbatim>\<open>saveEdit\<close> only.\<close>

lemma addLocalEdit_records:
  "\<exists>e\<in>set (edited (localEdits (addLocalEdit now itemId field val st))).
     edit_id e = itemId \<and> map_of (edit_set e) field = Some (JStr val)"
proof (cases "findIndex (\<lambda>e. edit_id e = itemId) (edited (localEdits st))")
  case None
  let ?es = "edited (localEdits st)"
  have "edited (localEdits (addLocalEdit now itemId field val st))
      = ?es @ [\<lparr>edit_id = itemId, edit_set = [(field, JStr val)]\<rparr>]"
    by (simp add: addLocalEdit_def Let_def None)
  then show ?thesis by simp
next
  case (Some j)
  let ?es = "edited (localEdits st)"
  from findIndex_SomeD[OF Some] have j: "j < length ?es" "edit_id (?es ! j) = itemId" by simp_all
  let ?e = "(?es ! j)\<lparr>edit_set := AList.update field (JStr val) (edit_set (?es ! j))\<rparr>"
  have eq: "edited (localEdits (addLocalEdit now itemId field val st)) = ?es[j := ?e]"
    by (simp add: addLocalEdit_def Let_def Some)
  have mem: "?e \<in> set (?es[j := ?e])"
    using j(1) by (simp add: set_update_memI)
  have "edit_id ?e = itemId \<and> map_of (edit_set ?e) field = Some (JStr val)"
    using j(2) by (simp add: update_conv')
  with mem show ?thesis unfolding eq by blast
qed

text \<open>\<^verbatim>\<open>addLocalEdit\<close> keeps the overlay at one entry per item id, and keeps its \<^verbatim>\<open>set\<close>s
  free of \<^verbatim>\<open>id\<close> as long as the edited field is not \<^verbatim>\<open>id\<close> (no editable field is).\<close>

lemma addLocalEdit_overlay_ok:
  assumes "overlay_ok (localEdits st)" and "field \<noteq> ''id''"
  shows "overlay_ok (localEdits (addLocalEdit now itemId field val st))"
proof (cases "findIndex (\<lambda>e. edit_id e = itemId) (edited (localEdits st))")
  case None
  let ?es = "edited (localEdits st)"
  from None have "itemId \<notin> edit_id ` set ?es" by (auto simp: findIndex_None_iff)
  moreover have "edited (localEdits (addLocalEdit now itemId field val st))
      = ?es @ [\<lparr>edit_id = itemId, edit_set = [(field, JStr val)]\<rparr>]"
    by (simp add: addLocalEdit_def Let_def None)
  ultimately show ?thesis using assms by (auto simp: overlay_ok_def keeps_id_def)
next
  case (Some j)
  let ?es = "edited (localEdits st)"
  let ?e = "(?es ! j)\<lparr>edit_set := AList.update field (JStr val) (edit_set (?es ! j))\<rparr>"
  from findIndex_SomeD[OF Some] have j: "j < length ?es" by simp
  have eq: "edited (localEdits (addLocalEdit now itemId field val st)) = ?es[j := ?e]"
    by (simp add: addLocalEdit_def Let_def Some)
  have "map edit_id (?es[j := ?e]) = map edit_id ?es"
    by (simp add: map_update list_update_same_conv j)
  moreover from assms j have "keeps_id (edit_set ?e)"
    by (auto simp: overlay_ok_def keeps_id_def dom_update)
  moreover have "set (?es[j := ?e]) \<subseteq> insert ?e (set ?es)" by (rule set_update_subset_insert)
  ultimately show ?thesis using assms(1) unfolding overlay_ok_def eq by auto
qed

section \<open>The first item with an id\<close>

lemma findIndex_Some_iff:
  "findIndex P xs = Some i \<longleftrightarrow> i < length xs \<and> P (xs ! i) \<and> (\<forall>j<i. \<not> P (xs ! j))"
proof
  assume "findIndex P xs = Some i"
  then show "i < length xs \<and> P (xs ! i) \<and> (\<forall>j<i. \<not> P (xs ! j))" by (rule findIndex_SomeD)
next
  assume r: "i < length xs \<and> P (xs ! i) \<and> (\<forall>j<i. \<not> P (xs ! j))"
  then have "\<exists>x\<in>set xs. P x" by auto
  then obtain i' where i': "findIndex P xs = Some i'" using findIndex_Some_iff_ex[of P xs] by blast
  from findIndex_SomeD[OF i'] r have "\<not> i' < i" "\<not> i < i'" by auto
  then have "i' = i" by simp
  with i' show "findIndex P xs = Some i" by simp
qed

lemma findIndex_first_with_id:
  "findIndex (has_id r) coll = Some j \<longleftrightarrow> first_with_id r coll j"
  by (simp add: findIndex_Some_iff first_with_id_def)

lemma first_with_id_exists:
  "(\<exists>item\<in>set coll. has_id r item) \<Longrightarrow> \<exists>j. first_with_id r coll j"
  using findIndex_Some_iff_ex[of "has_id r" coll] by (simp add: findIndex_first_with_id)

section \<open>Applying a delta twice\<close>

text \<open>
  C1, as amended. For a delta that adds no items and whose update entries carry no
  \<^verbatim>\<open>box_history_append\<close> and no \<^verbatim>\<open>set\<close> assigning \<^verbatim>\<open>id\<close>, applied to a collection with
  pairwise distinct ids: the merge returns normally, and merging the same delta into the
  result returns the result unchanged.
\<close>

theorem mergeDelta_idempotent_without_additions:
  assumes "addedOf d = []"
    and "\<forall>u\<in>set (updatedOf d). box_history_append u = None \<and> keeps_id (setOf u)"
    and "distinct_ids coll"
  shows "\<exists>c1. mergeDelta coll d = Returned c1 \<and> mergeDelta c1 d = Returned c1"
proof -
  let ?U = "\<lambda>item. assign item (setsFor (updatedOf d) item)"
  let ?R = "\<lambda>item. \<forall>r\<in>set (removedOf d). \<not> has_id r item"
  let ?c1 = "filter ?R (map ?U coll)"
  from assms(2) have k: "\<forall>u\<in>set (updatedOf d). keeps_id (setOf u)" by simp
  have first: "mergeDelta coll d = Returned ?c1"
    by (rule mergeDelta_plain_normal_form[OF assms])
  have "distinct_ids (after (mergeDelta coll d))"
    by (rule distinct_ids_mergeDelta) (simp_all add: assms k)
  with first have d1: "distinct_ids ?c1" by simp
  have idem: "?U (?U item) = ?U item" for item
    using setsFor_cong[OF idOf_assign_setsFor[OF k, of item], of "updatedOf d"]
    by (simp add: assign_idem)
  have "map ?U ?c1 = ?c1"
  proof (rule map_idI)
    fix y assume "y \<in> set ?c1"
    then obtain x where "y = ?U x" by auto
    with idem[of x] show "?U y = y" by simp
  qed
  moreover have "filter ?R ?c1 = ?c1" by simp
  ultimately have "mergeDelta ?c1 d = Returned ?c1"
    by (simp only: mergeDelta_plain_normal_form[OF assms(1,2) d1])
  with first show ?thesis by blast
qed

theorem mergeDelta_idempotent_without_additions_witness:
  "addedOf ex_delta_plain = []
   \<and> box_history_append ex_upd_notes = None \<and> keeps_id (setOf ex_upd_notes)
   \<and> distinct_ids [ex_item1, ex_item2]
   \<and> mergeDelta [ex_item1, ex_item2] ex_delta_plain
       = Returned [AList.update ''notes'' (JStr ''fragile'') ex_item1]
   \<and> mergeDelta [AList.update ''notes'' (JStr ''fragile'') ex_item1] ex_delta_plain
       = Returned [AList.update ''notes'' (JStr ''fragile'') ex_item1]"
proof -
  have h: "addedOf ex_delta_plain = []"
    "\<forall>u\<in>set (updatedOf ex_delta_plain). box_history_append u = None \<and> keeps_id (setOf u)"
    "distinct_ids [ex_item1, ex_item2]"
    by (simp_all add: addedOf_def updatedOf_def ex_delta_plain_def ex_upd_notes_def setOf_def
        keeps_id_def distinct_ids_def idOf_def ex_item1_def ex_item2_def)
  have e: "mergeDelta [ex_item1, ex_item2] ex_delta_plain
       = Returned [AList.update ''notes'' (JStr ''fragile'') ex_item1]"
    by (simp add: mergeDelta_def ex_delta_plain_def applyUpdate_def updateItem_def setOf_def
        ex_upd_notes_def has_id_def idOf_def ex_item1_def ex_item2_def assign_def removeId_def)
  from mergeDelta_idempotent_without_additions[OF h] e h(1,3) show ?thesis
    by (simp add: ex_upd_notes_def setOf_def keeps_id_def)
qed

text \<open>
  C1. Counterexample: a delta that adds \<^verbatim>\<open>it_2\<close>, merged into the collection that the
  first merge produced, adds \<^verbatim>\<open>it_2\<close> a second time.
\<close>

theorem mergeDelta_twice_duplicates_counterexample:
  "mergeDelta [ex_item1] ex_delta_add = Returned [ex_item1, ex_item2]
   \<and> mergeDelta [ex_item1, ex_item2] ex_delta_add = Returned [ex_item1, ex_item2, ex_item2]
   \<and> [ex_item1, ex_item2, ex_item2] \<noteq> [ex_item1, ex_item2]"
  by (simp add: mergeDelta_def ex_delta_add_def)

section \<open>Uniqueness of ids\<close>

text \<open>
  C2, as amended. Pairwise distinct ids are kept by a delta application when the ids of
  the collection together with the delta's added items are pairwise distinct and no
  \<^verbatim>\<open>set\<close> of an update entry assigns \<^verbatim>\<open>id\<close>, whether the merge returns or throws; and
  by the overlay application when no \<^verbatim>\<open>set\<close> of an overlay entry assigns \<^verbatim>\<open>id\<close>. The
  added items themselves are pushed without any check of their ids.
\<close>

theorem distinct_ids_preserved:
  "(distinct_ids (coll @ addedOf d) \<and> (\<forall>u\<in>set (updatedOf d). keeps_id (setOf u))
      \<longrightarrow> distinct_ids (after (mergeDelta coll d)))
   \<and> (distinct_ids coll' \<and> (\<forall>e\<in>set (edited ov). keeps_id (edit_set e))
      \<longrightarrow> distinct_ids (applyLocalEdits coll' ov))"
  using distinct_ids_mergeDelta distinct_ids_applyLocalEdits by blast

theorem distinct_ids_preserved_witness:
  "distinct_ids ([ex_item1] @ addedOf ex_delta)
   \<and> keeps_id (setOf ex_upd_notes)
   \<and> distinct_ids (after (mergeDelta [ex_item1] ex_delta))
   \<and> distinct_ids [ex_item1, ex_item2]
   \<and> keeps_id (edit_set ex_edit)
   \<and> distinct_ids (applyLocalEdits [ex_item1, ex_item2] ex_overlay)"
proof -
  have h: "distinct_ids ([ex_item1] @ addedOf ex_delta)" "keeps_id (setOf ex_upd_notes)"
    "distinct_ids [ex_item1, ex_item2]" "keeps_id (edit_set ex_edit)"
    by (simp_all add: distinct_ids_def keeps_id_def idOf_def addedOf_def setOf_def ex_delta_def
        ex_item1_def ex_item2_def ex_upd_notes_def ex_edit_def)
  have u: "updatedOf ex_delta = [ex_upd_notes]" "edited ex_overlay = [ex_edit]"
    by (simp_all add: updatedOf_def ex_delta_def ex_overlay_def)
  show ?thesis
    using h u distinct_ids_preserved[of "[ex_item1]" ex_delta "[ex_item1, ex_item2]" ex_overlay]
    by simp
qed

text \<open>
  C2. Counterexample: the base holds \<^verbatim>\<open>it_1\<close> and the one delta of the manifest adds an
  item with the same id; the loaded collection holds both.
\<close>

theorem ids_not_unique_counterexample:
  "items (loadCatalogData (Some ex_base) (Some ex_index_dup) ex_fetch_dup (newApp ex_no_edits))
     = [ex_item1, ex_item1_again]
   \<and> has_id ''it_1'' ex_item1 \<and> has_id ''it_1'' ex_item1_again
   \<and> \<not> distinct_ids
         (items (loadCatalogData (Some ex_base) (Some ex_index_dup) ex_fetch_dup (newApp ex_no_edits)))"
proof -
  have "items (loadCatalogData (Some ex_base) (Some ex_index_dup) ex_fetch_dup (newApp ex_no_edits))
     = [ex_item1, ex_item1_again]"
    by (simp add: items_loadCatalogData deltasOf_def baseItemsOf_def ex_base_def ex_index_dup_def
        ex_fetch_dup_def ex_delta_dup_def mergeDelta_def newApp_def ex_no_edits_def
        applyLocalEdits_def)
  moreover have "has_id ''it_1'' ex_item1" "has_id ''it_1'' ex_item1_again"
    by (simp_all add: has_id_def idOf_def ex_item1_def ex_item1_again_def)
  ultimately show ?thesis
    by (simp add: distinct_ids_def has_id_def)
qed

section \<open>The order of the phases within one delta\<close>




section \<open>Appending to the box history\<close>

text \<open>
  C4, as amended. For an update entry that carries \<^verbatim>\<open>box_history_append\<close> and whose own
  \<^verbatim>\<open>set\<close> does not assign \<^verbatim>\<open>box_history\<close>, the item it targets keeps its history
  entries unchanged and in place, with the new entries after them; an item without a
  history gets the new entries as its history. Nothing closes a prior entry. The step
  returns normally, and so does a delta made of this entry alone. (The \<^verbatim>\<open>set\<close> is
  merged before the append, so a \<^verbatim>\<open>box_history\<close> inside \<^verbatim>\<open>set\<close> replaces the prior
  history.)
\<close>

theorem box_history_append_appends:
  assumes "findIndex (has_id (upd_id u)) coll = Some i"
    and "box_history_append u = Some app"
    and "''box_history'' \<notin> fst ` set (setOf u)"
  shows "(map_of (coll ! i) ''box_history'' = Some (JArr old) \<longrightarrow>
           applyUpdate coll u
             = Returned (coll[i := AList.update ''box_history'' (JArr (old @ app))
                                     (assign (coll ! i) (setOf u))])
           \<and> mergeDelta coll \<lparr>added = None, updated = Some [u], removed = None\<rparr>
             = Returned (coll[i := AList.update ''box_history'' (JArr (old @ app))
                                     (assign (coll ! i) (setOf u))])
           \<and> map_of (AList.update ''box_history'' (JArr (old @ app)) (assign (coll ! i) (setOf u)))
               ''box_history'' = Some (JArr (old @ app)))
    \<and> (map_of (coll ! i) ''box_history'' = None \<longrightarrow>
           applyUpdate coll u
             = Returned (coll[i := AList.update ''box_history'' (JArr app)
                                     (assign (coll ! i) (setOf u))])
           \<and> mergeDelta coll \<lparr>added = None, updated = Some [u], removed = None\<rparr>
             = Returned (coll[i := AList.update ''box_history'' (JArr app)
                                     (assign (coll ! i) (setOf u))]))"
proof -
  have keep: "map_of (assign (coll ! i) (setOf u)) ''box_history'' = map_of (coll ! i) ''box_history''"
    by (rule map_of_assign_notin[OF assms(3)])
  show ?thesis
    using assms(1,2) keep
    by (auto simp: mergeDelta_single_update updateItem_def appendBoxHistory_array
        appendBoxHistory_absent update_conv' intro!: applyUpdate_found)
qed

theorem box_history_append_appends_witness:
  "findIndex (has_id (upd_id ex_upd_move)) [ex_item1, ex_item2] = Some 0
   \<and> box_history_append ex_upd_move = Some [ex_hist_new]
   \<and> ''box_history'' \<notin> fst ` set (setOf ex_upd_move)
   \<and> map_of ([ex_item1, ex_item2] ! 0) ''box_history'' = Some (JArr [ex_hist_old])
   \<and> mergeDelta [ex_item1, ex_item2] \<lparr>added = None, updated = Some [ex_upd_move], removed = None\<rparr>
       = Returned [[(''id'', JStr ''it_1''), (''box_id'', JStr ''S''), (''notes'', JStr ''old''),
                    (''box_history'', JArr [ex_hist_old, ex_hist_new])], ex_item2]
   \<and> ex_hist_old = JObj [(''box_id'', JStr ''DO3M''), (''from'', JStr ''2025-01-06''), (''to'', JNull)]
   \<and> ex_hist_new = JObj [(''box_id'', JStr ''S''), (''from'', JStr ''2025-02-01''), (''to'', JNull)]"
proof -
  have h: "findIndex (has_id (upd_id ex_upd_move)) [ex_item1, ex_item2] = Some 0"
    "box_history_append ex_upd_move = Some [ex_hist_new]"
    "''box_history'' \<notin> fst ` set (setOf ex_upd_move)"
    "map_of ([ex_item1, ex_item2] ! 0) ''box_history'' = Some (JArr [ex_hist_old])"
    by (simp_all add: ex_upd_move_def has_id_def idOf_def ex_item1_def setOf_def)
  have r: "AList.update ''box_history'' (JArr ([ex_hist_old] @ [ex_hist_new]))
             (assign ([ex_item1, ex_item2] ! 0) (setOf ex_upd_move))
           = [(''id'', JStr ''it_1''), (''box_id'', JStr ''S''), (''notes'', JStr ''old''),
              (''box_history'', JArr [ex_hist_old, ex_hist_new])]"
    by (simp add: ex_item1_def setOf_def ex_upd_move_def assign_def)
  from box_history_append_appends[OF h(1,2,3), of "[ex_hist_old]"] h r show ?thesis
    by (simp add: ex_hist_old_def ex_hist_new_def)
qed

text \<open>
  C4. Counterexample: the entry carries \<^verbatim>\<open>box_history_append\<close> and its \<^verbatim>\<open>set\<close> holds
  \<^verbatim>\<open>box_history: []\<close>. The item's prior history entry is gone after the delta.
\<close>

theorem box_history_replaced_counterexample:
  "map_of ex_item1 ''box_history'' = Some (JArr [ex_hist_old])
   \<and> has_id (upd_id ex_upd_replace) ex_item1
   \<and> box_history_append ex_upd_replace = Some [ex_hist_new]
   \<and> mergeDelta [ex_item1] \<lparr>added = None, updated = Some [ex_upd_replace], removed = None\<rparr>
       = Returned [[(''id'', JStr ''it_1''), (''box_id'', JStr ''DO3M''), (''notes'', JStr ''old''),
                    (''box_history'', JArr [ex_hist_new])]]
   \<and> [ex_hist_new] \<noteq> [ex_hist_old] @ [ex_hist_new]"
  by (simp add: mergeDelta_def applyUpdate_def updateItem_def appendBoxHistory_def setOf_def
      assign_def ex_upd_replace_def has_id_def idOf_def ex_item1_def)

section \<open>Applying the overlay\<close>

text \<open>
  C5. An overlay entry whose id no item carries leaves the collection unchanged. An
  entry whose id some item of the collection carries edits the first item with that id
  in place: \<^verbatim>\<open>Object.assign(item, edit.set)\<close>, shallow, then \<^verbatim>\<open>_edited = true\<close>. The
  entries are applied one after the other, in order. For an overlay with at most one
  entry per id and no \<^verbatim>\<open>set\<close> assigning \<^verbatim>\<open>id\<close>, after \<^verbatim>\<open>applyLocalEdits\<close> the first
  item with an entry's id, if the collection has one, is that item with the entry's
  \<^verbatim>\<open>set\<close> assigned and the mark set, so every property of the \<^verbatim>\<open>set\<close> has the
  overlay's value; the items that are not the first item of any entry's id are
  unchanged; and an overlay whose entries all target absent ids leaves the collection
  unchanged.
\<close>

theorem applyLocalEdits_merges_overlay:
  "((\<forall>item\<in>set coll. \<not> has_id (edit_id e) item) \<longrightarrow> applyEdit e coll = coll)
   \<and> ((\<exists>item\<in>set coll. has_id (edit_id e) item) \<longrightarrow>
         (\<exists>i. first_with_id (edit_id e) coll i
              \<and> applyEdit e coll = coll[i := editItem e (coll ! i)]))
   \<and> map_of (editItem e item) ''_edited'' = Some (JBool True)
   \<and> (\<forall>k. k \<noteq> ''_edited'' \<longrightarrow>
         map_of (editItem e item) k =
           (case map_of (rev (edit_set e)) k of Some v \<Rightarrow> Some v | None \<Rightarrow> map_of item k))
   \<and> applyLocalEdits coll (ov\<lparr>edited := []\<rparr>) = coll
   \<and> applyLocalEdits coll (ov\<lparr>edited := e # es\<rparr>)
       = applyLocalEdits (applyEdit e coll) (ov\<lparr>edited := es\<rparr>)
   \<and> length (applyLocalEdits coll ov) = length coll
   \<and> ((\<forall>e'\<in>set (edited ov). \<forall>item\<in>set coll. \<not> has_id (edit_id e') item) \<longrightarrow>
         applyLocalEdits coll ov = coll)
   \<and> (overlay_ok ov \<longrightarrow>
         (\<forall>e'\<in>set (edited ov). (\<exists>item\<in>set coll. has_id (edit_id e') item) \<longrightarrow>
            (\<exists>j. first_with_id (edit_id e') coll j
               \<and> applyLocalEdits coll ov ! j = editItem e' (coll ! j)
               \<and> has_id (edit_id e') (applyLocalEdits coll ov ! j)
               \<and> map_of (applyLocalEdits coll ov ! j) ''_edited'' = Some (JBool True)
               \<and> (\<forall>(k, v)\<in>set (edit_set e').
                     distinct (map fst (edit_set e')) \<and> k \<noteq> ''_edited'' \<longrightarrow>
                     map_of (applyLocalEdits coll ov ! j) k = Some v)))
         \<and> (\<forall>j. (\<forall>e'\<in>set (edited ov). \<not> first_with_id (edit_id e') coll j) \<longrightarrow>
               applyLocalEdits coll ov ! j = coll ! j))"
proof -
  have found: "\<exists>i. first_with_id (edit_id e) coll i
        \<and> applyEdit e coll = coll[i := editItem e (coll ! i)]"
    if "\<exists>item\<in>set coll. has_id (edit_id e) item"
  proof -
    from first_with_id_exists[OF that] obtain i where i: "first_with_id (edit_id e) coll i" by blast
    then have "findIndex (has_id (edit_id e)) coll = Some i" by (simp add: findIndex_first_with_id)
    from applyEdit_found[OF this] i show ?thesis by blast
  qed
  have target: "\<exists>j. first_with_id (edit_id e') coll j
               \<and> applyLocalEdits coll ov ! j = editItem e' (coll ! j)
               \<and> has_id (edit_id e') (applyLocalEdits coll ov ! j)
               \<and> map_of (applyLocalEdits coll ov ! j) ''_edited'' = Some (JBool True)
               \<and> (\<forall>(k, v)\<in>set (edit_set e').
                     distinct (map fst (edit_set e')) \<and> k \<noteq> ''_edited'' \<longrightarrow>
                     map_of (applyLocalEdits coll ov ! j) k = Some v)"
    if ok: "overlay_ok ov" and mem: "e' \<in> set (edited ov)"
      and ex: "\<exists>item\<in>set coll. has_id (edit_id e') item" for e'
  proof -
    from first_with_id_exists[OF ex] obtain j where j: "first_with_id (edit_id e') coll j" by blast
    then have idx: "findIndex (has_id (edit_id e')) coll = Some j"
      by (simp add: findIndex_first_with_id)
    from ok mem have k: "keeps_id (edit_set e')" by (simp add: overlay_ok_def)
    have eq: "applyLocalEdits coll ov ! j = editItem e' (coll ! j)"
      using ok mem idx fold_applyEdit_target[of "edited ov" e' coll j]
      by (simp add: overlay_ok_def applyLocalEdits_def)
    from j have "has_id (edit_id e') (coll ! j)" by (simp add: first_with_id_def)
    with idOf_editItem[OF k, of "coll ! j"] have hid: "has_id (edit_id e') (editItem e' (coll ! j))"
      by (simp add: has_id_def)
    have fields: "\<forall>(k, v)\<in>set (edit_set e').
                     distinct (map fst (edit_set e')) \<and> k \<noteq> ''_edited'' \<longrightarrow>
                     map_of (editItem e' (coll ! j)) k = Some v"
      using map_of_editItem_set[of e' _ _ "coll ! j"] by blast
    from j eq hid fields show ?thesis
      by (intro exI[of _ j]) (simp add: map_of_editItem)
  qed
  have untouched: "applyLocalEdits coll ov ! j = coll ! j"
    if "overlay_ok ov" "\<forall>e'\<in>set (edited ov). \<not> first_with_id (edit_id e') coll j" for j
    using that fold_applyEdit_untouched[of "edited ov" coll j]
    by (simp add: overlay_ok_def applyLocalEdits_def findIndex_first_with_id)
  have step: "((\<forall>item\<in>set coll. \<not> has_id (edit_id e) item) \<longrightarrow> applyEdit e coll = coll)
   \<and> map_of (editItem e item) ''_edited'' = Some (JBool True)
   \<and> (\<forall>k. k \<noteq> ''_edited'' \<longrightarrow>
         map_of (editItem e item) k =
           (case map_of (rev (edit_set e)) k of Some v \<Rightarrow> Some v | None \<Rightarrow> map_of item k))
   \<and> applyLocalEdits coll (ov\<lparr>edited := []\<rparr>) = coll
   \<and> applyLocalEdits coll (ov\<lparr>edited := e # es\<rparr>)
       = applyLocalEdits (applyEdit e coll) (ov\<lparr>edited := es\<rparr>)
   \<and> length (applyLocalEdits coll ov) = length coll
   \<and> ((\<forall>e'\<in>set (edited ov). \<forall>item\<in>set coll. \<not> has_id (edit_id e') item) \<longrightarrow>
         applyLocalEdits coll ov = coll)"
    by (simp add: applyEdit_absent map_of_editItem applyLocalEdits_def fold_applyEdit_all_absent)
  from step found target untouched show ?thesis by blast
qed

theorem applyLocalEdits_merges_overlay_witness:
  "\<not> has_id (edit_id ex_edit9) ex_item2 \<and> \<not> has_id (edit_id ex_edit9) ex_item1
   \<and> applyEdit ex_edit9 [ex_item2, ex_item1] = [ex_item2, ex_item1]
   \<and> ex_item1 \<in> set [ex_item2, ex_item1] \<and> has_id (edit_id ex_edit) ex_item1
   \<and> \<not> has_id (edit_id ex_edit) ex_item2
   \<and> first_with_id (edit_id ex_edit) [ex_item2, ex_item1] 1
   \<and> applyEdit ex_edit [ex_item2, ex_item1] = [ex_item2, editItem ex_edit ex_item1]
   \<and> editItem ex_edit ex_item1
       = ex_item1 @ [(''item_name'', JStr ''Family letter''), (''_edited'', JBool True)]
   \<and> overlay_ok ex_overlay9
   \<and> edited ex_overlay9 = [ex_edit9, ex_edit]
   \<and> (''item_name'', JStr ''Family letter'') \<in> set (edit_set ex_edit)
   \<and> distinct (map fst (edit_set ex_edit))
   \<and> applyLocalEdits [ex_item2, ex_item1] ex_overlay9 = [ex_item2, editItem ex_edit ex_item1]
   \<and> map_of (applyLocalEdits [ex_item2, ex_item1] ex_overlay9 ! 1) ''item_name''
       = Some (JStr ''Family letter'')
   \<and> map_of (applyLocalEdits [ex_item2, ex_item1] ex_overlay9 ! 1) ''_edited'' = Some (JBool True)
   \<and> map_of (applyLocalEdits [ex_item2, ex_item1] ex_overlay9 ! 0) ''_edited'' = None
   \<and> applyLocalEdits [ex_item2, ex_item1] \<lparr>edited = [ex_edit9], timestamp = None\<rparr>
       = [ex_item2, ex_item1]"
proof -
  have ids: "\<not> has_id (edit_id ex_edit9) ex_item2" "\<not> has_id (edit_id ex_edit9) ex_item1"
    "has_id (edit_id ex_edit) ex_item1" "\<not> has_id (edit_id ex_edit) ex_item2"
    by (simp_all add: has_id_def idOf_def ex_edit9_def ex_edit_def ex_item1_def ex_item2_def)
  then have first: "first_with_id (edit_id ex_edit) [ex_item2, ex_item1] 1"
    by (simp add: first_with_id_def)
  have ok: "overlay_ok ex_overlay9" "(''item_name'', JStr ''Family letter'') \<in> set (edit_set ex_edit)"
    "distinct (map fst (edit_set ex_edit))" "edited ex_overlay9 = [ex_edit9, ex_edit]"
    by (simp_all add: overlay_ok_def ex_overlay9_def ex_edit9_def ex_edit_def keeps_id_def)
  have it: "editItem ex_edit ex_item1
       = ex_item1 @ [(''item_name'', JStr ''Family letter''), (''_edited'', JBool True)]"
    by (simp add: editItem_def ex_edit_def ex_item1_def assign_def)
  have e2: "map_of ex_item2 ''_edited'' = None"
    by (simp add: ex_item2_def)
  from applyLocalEdits_merges_overlay
         [where coll = "[ex_item2, ex_item1]" and e = ex_edit9
            and ov = "\<lparr>edited = [ex_edit9], timestamp = None\<rparr>"] ids
  have a9: "applyEdit ex_edit9 [ex_item2, ex_item1] = [ex_item2, ex_item1]"
    and all9: "applyLocalEdits [ex_item2, ex_item1] \<lparr>edited = [ex_edit9], timestamp = None\<rparr>
       = [ex_item2, ex_item1]"
    by simp_all
  have ex: "\<exists>item\<in>set [ex_item2, ex_item1]. has_id (edit_id ex_edit) item"
    using ids by simp
  from applyLocalEdits_merges_overlay
         [where coll = "[ex_item2, ex_item1]" and e = ex_edit and ov = ex_overlay9,
          THEN conjunct2, THEN conjunct1, rule_format, OF ex]
  obtain i where i: "first_with_id (edit_id ex_edit) [ex_item2, ex_item1] i"
    "applyEdit ex_edit [ex_item2, ex_item1] = [ex_item2, ex_item1][i := editItem ex_edit ([ex_item2, ex_item1] ! i)]"
    by blast
  from i(1) ids have "i = 1"
    by (auto simp: first_with_id_def less_Suc_eq nth_Cons')
  with i(2) have a1: "applyEdit ex_edit [ex_item2, ex_item1] = [ex_item2, editItem ex_edit ex_item1]"
    by simp
  have all: "applyLocalEdits [ex_item2, ex_item1] ex_overlay9 = [ex_item2, editItem ex_edit ex_item1]"
    by (simp add: applyLocalEdits_def ok(4) a9 a1)
  have f: "map_of (editItem ex_edit ex_item1) ''item_name'' = Some (JStr ''Family letter'')"
    "map_of (editItem ex_edit ex_item1) ''_edited'' = Some (JBool True)"
    by (simp_all only: it) (simp_all add: ex_item1_def)
  from ids first ok it e2 a9 all9 a1 all f show ?thesis
    by simp
qed

section \<open>Recording an edit with an empty value\<close>

text \<open>
  C6. When the value typed into the inline editor is empty after trimming, saving the
  edit records nothing: the application state, and with it the overlay's \<^verbatim>\<open>edited\<close>
  log, is unchanged. (The guard is in \<^verbatim>\<open>saveEdit\<close>, the only caller of
  \<^verbatim>\<open>addLocalEdit\<close>.)
\<close>

theorem saveEdit_empty_not_recorded:
  assumes "trim inputValue = []"
  shows "saveEdit now itemId fieldName currentValue inputValue st = st
    \<and> edited (localEdits (saveEdit now itemId fieldName currentValue inputValue st))
        = edited (localEdits st)"
  using assms by (simp add: saveEdit_def)

theorem saveEdit_empty_not_recorded_witness:
  "trim ''   '' = []
   \<and> saveEdit ''2025-02-01T10:00:00.000Z'' ''it_1'' ''notes'' ''old'' ''   '' ex_app = ex_app
   \<and> edited (localEdits (saveEdit ''2025-02-01T10:00:00.000Z'' ''it_1'' ''notes'' ''old'' ''   '' ex_app))
       = edited (localEdits ex_app)"
proof -
  have h: "trim ''   '' = []"
    by (simp add: trim_def is_space_def)
  show ?thesis
    using h saveEdit_empty_not_recorded
      [of "''   ''" "''2025-02-01T10:00:00.000Z''" "''it_1''" "''notes''" "''old''" ex_app]
    by simp
qed

section \<open>Loading the overlay\<close>

text \<open>
  C7. \<^verbatim>\<open>loadLocalEdits\<close> always returns a value and never an exception. It returns
  the default overlay \<^verbatim>\<open>{edited: []}\<close> when reading the storage throws, when nothing is
  stored and when the stored string does not parse; otherwise it returns the parsed
  document. (\<^verbatim>\<open>JSON.parse\<close> rejects the empty string, which the code does not hand to the
  parser at all.)
\<close>

theorem loadLocalEdits_total:
  assumes "parse [] = None"
  shows "(\<exists>v. loadLocalEdits parse r = Inr v)
    \<and> (r = ReadThrows \<or> r = NoItem \<longrightarrow>
          loadLocalEdits parse r = Inr (JObj [(''edited'', JArr [])]))
    \<and> (\<forall>s. r = Item s \<and> parse s = None \<longrightarrow>
          loadLocalEdits parse r = Inr (JObj [(''edited'', JArr [])]))
    \<and> (\<forall>s v. r = Item s \<and> parse s = Some v \<longrightarrow> loadLocalEdits parse r = Inr v)"
  using assms
  by (cases r)
    (auto simp: loadLocalEdits_def loadLocalEdits_try_def emptyOverlay_def split: option.splits)

theorem loadLocalEdits_total_witness:
  "ex_parse [] = None
   \<and> loadLocalEdits ex_parse ReadThrows = Inr (JObj [(''edited'', JArr [])])
   \<and> loadLocalEdits ex_parse NoItem = Inr (JObj [(''edited'', JArr [])])
   \<and> loadLocalEdits ex_parse (Item []) = Inr (JObj [(''edited'', JArr [])])
   \<and> ex_parse ''{'' = None
   \<and> loadLocalEdits ex_parse (Item ''{'') = Inr (JObj [(''edited'', JArr [])])
   \<and> ex_parse ex_stored = Some ex_stored_overlay
   \<and> loadLocalEdits ex_parse (Item ex_stored)
       = Inr (JObj [(''edited'', JArr [JObj [(''id'', JStr ''it_1''),
                                             (''set'', JObj [(''notes'', JStr ''fragile'')])]])])
   \<and> ex_parse ''null'' = Some JNull \<and> loadLocalEdits ex_parse (Item ''null'') = Inr JNull"
proof -
  have h: "ex_parse [] = None" "ex_parse ''{'' = None" "ex_parse ex_stored = Some ex_stored_overlay"
    "ex_parse ''null'' = Some JNull"
    by (simp_all add: ex_parse_def ex_stored_def quoted_def)
  show ?thesis
    using h loadLocalEdits_total[of ex_parse ReadThrows] loadLocalEdits_total[of ex_parse NoItem]
      loadLocalEdits_total[of ex_parse "Item []"]
      loadLocalEdits_total[of ex_parse "Item ''{''"]
      loadLocalEdits_total[of ex_parse "Item ex_stored"]
      loadLocalEdits_total[of ex_parse "Item ''null''"]
    by (simp add: ex_stored_overlay_def)
qed

section \<open>Failures while loading\<close>

text \<open>
  C8. The code at the failing input: the base snapshot loads (one item, \<^verbatim>\<open>people\<close> an
  array), the manifest lists no deltas, and the overlay is the one the inline editor
  stored when the People field of the item was edited, a string. The overlay is applied,
  collecting the filter values then throws on \<^verbatim>\<open>item.people.forEach\<close>, and the outer
  \<^verbatim>\<open>catch\<close> shows the load error although the base is present and parsed; the items are
  left loaded.
\<close>

theorem load_fails_after_people_edit:
  "errorShown ex_app_people = None
   \<and> items ex_app_people = [ex_item_people]
   \<and> localEdits (saveEdit ''2025-02-01T10:00:00.000Z'' ''it_1'' ''people'' ''Ann'' ''Ann, Bob''
                   ex_app_people) = ex_overlay_people
   \<and> errorShown (loadCatalogData (Some ex_base_people) (Some ex_index_empty) (\<lambda>f. None)
                   (newApp ex_overlay_people)) = Some loadFailedMessage
   \<and> items (loadCatalogData (Some ex_base_people) (Some ex_index_empty) (\<lambda>f. None)
              (newApp ex_overlay_people))
       = [[(''id'', JStr ''it_1''), (''item_name'', JStr ''Letter''),
           (''people'', JStr ''Ann, Bob''), (''_edited'', JBool True)]]"
proof -
  have id1: "has_id ''it_1'' ex_item_people"
    by (simp add: has_id_def idOf_def ex_item_people_def)
  have tr: "trim ''Ann, Bob'' = ''Ann, Bob''"
    by (simp add: trim_def is_space_def)
  have app0: "ex_app_people = (newApp ex_no_edits)\<lparr>items := [ex_item_people],
      catalogVersion := ''1.0.0'', lastUpdated := ''2025-01-06'',
      allBoxes := [None], allCategories := [None], allPeople := [JStr ''Ann'']\<rparr>"
    by (simp add: ex_app_people_def loadCatalogData_def ex_base_people_def ex_index_empty_def
        newApp_def ex_no_edits_def applyLocalEdits_def orElse_def collectItem_def setAdd_def
        ex_item_people_def)
  have ov: "localEdits (saveEdit ''2025-02-01T10:00:00.000Z'' ''it_1'' ''people'' ''Ann'' ''Ann, Bob''
                   ex_app_people) = ex_overlay_people"
    by (simp add: saveEdit_def tr addLocalEdit_def app0 newApp_def ex_no_edits_def
        ex_overlay_people_def Let_def)
  have fin: "applyLocalEdits (replayDeltas (\<lambda>f. None) (deltasOf ex_index_empty)
                 (baseItemsOf ex_base_people)) ex_overlay_people
       = [[(''id'', JStr ''it_1''), (''item_name'', JStr ''Letter''),
           (''people'', JStr ''Ann, Bob''), (''_edited'', JBool True)]]"
    using id1
    by (simp add: deltasOf_def baseItemsOf_def ex_base_people_def
        ex_index_empty_def ex_overlay_people_def applyLocalEdits_def applyEdit_def)
      (simp add: editItem_def assign_def ex_item_people_def)
  have its: "items (loadCatalogData (Some ex_base_people) (Some ex_index_empty) (\<lambda>f. None)
              (newApp ex_overlay_people))
       = [[(''id'', JStr ''it_1''), (''item_name'', JStr ''Letter''),
           (''people'', JStr ''Ann, Bob''), (''_edited'', JBool True)]]"
    by (simp add: items_loadCatalogData fin) (simp add: newApp_def fin)
  have err: "errorShown (loadCatalogData (Some ex_base_people) (Some ex_index_empty) (\<lambda>f. None)
                   (newApp ex_overlay_people)) = Some loadFailedMessage"
    by (simp add: errorShown_loadCatalogData fin people_ok_def)
  have e0: "errorShown ex_app_people = None" "items ex_app_people = [ex_item_people]"
    by (simp_all add: app0 newApp_def)
  from e0 ov its err show ?thesis
    by simp
qed

section \<open>Removal across the reconciliation pass\<close>

text \<open>
  C9, as amended. Let delta \<open>dk\<close> of the manifest list the id \<open>r\<close> in \<^verbatim>\<open>removed\<close>. If
  the ids are pairwise distinct when \<open>dk\<close> is merged (the collection reached by the
  earlier deltas together with the items \<open>dk\<close> adds), the merge of \<open>dk\<close> returns
  normally, no later delta adds an item with id \<open>r\<close>, and no \<^verbatim>\<open>set\<close> of \<open>dk\<close>, of a
  later delta or of the overlay assigns \<^verbatim>\<open>id\<close>, then no item of the loaded collection
  has id \<open>r\<close>, whatever earlier deltas added, and the overlay entries targeting \<open>r\<close>
  are without effect: the loaded collection is the one loaded without them.
\<close>

theorem removal_is_final:
  assumes "deltasOf m = pre @ f # post"
    and "fetch f = Some dk"
    and "r \<in> set (removedOf dk)"
    and "mergeDelta (replayDeltas fetch pre (baseItemsOf b)) dk = Returned mid"
    and "distinct_ids (replayDeltas fetch pre (baseItemsOf b) @ addedOf dk)"
    and "\<forall>u\<in>set (updatedOf dk). keeps_id (setOf u)"
    and "\<forall>f'\<in>set post. \<forall>d'. fetch f' = Some d' \<longrightarrow>
           (\<forall>a\<in>set (addedOf d'). \<not> has_id r a) \<and> (\<forall>u\<in>set (updatedOf d'). keeps_id (setOf u))"
    and "\<forall>e\<in>set (edited ov). keeps_id (edit_set e)"
  shows "(\<forall>item\<in>set (items (loadCatalogData (Some b) (Some m) fetch (newApp ov))).
            \<not> has_id r item)
    \<and> items (loadCatalogData (Some b) (Some m) fetch (newApp ov))
        = items (loadCatalogData (Some b) (Some m) fetch
                   (newApp (ov\<lparr>edited := filter (\<lambda>e. edit_id e \<noteq> r) (edited ov)\<rparr>)))"
proof -
  let ?before = "replayDeltas fetch pre (baseItemsOf b)"
  have "replayDeltas fetch (deltasOf m) (baseItemsOf b) = replayDeltas fetch post mid"
    using assms(2,4) by (simp add: assms(1) replayDeltas_append)
  moreover have "\<forall>item\<in>set mid. \<not> has_id r item"
    by (rule removed_after_mergeDelta[OF assms(4,5,6,3)])
  then have "\<forall>item\<in>set (replayDeltas fetch post mid). \<not> has_id r item"
    by (rule absent_replayDeltas) (rule assms(7))
  ultimately have "\<forall>item\<in>set (replayDeltas fetch (deltasOf m) (baseItemsOf b)). \<not> has_id r item"
    by simp
  from fold_applyEdit_absent[OF this assms(8)] show ?thesis
    by (simp add: items_loadCatalogData applyLocalEdits_def newApp_def)
qed

theorem removal_is_final_witness:
  "deltasOf ex_index_two = [''2025-02-01.json''] @ ''2025-02-02.json'' # []
   \<and> ex_fetch_add_rm ''2025-02-02.json'' = Some ex_delta_rm2
   \<and> removedOf ex_delta_rm2 = [''it_2'']
   \<and> mergeDelta (replayDeltas ex_fetch_add_rm [''2025-02-01.json''] (baseItemsOf ex_base)) ex_delta_rm2
       = Returned [ex_item1]
   \<and> distinct_ids (replayDeltas ex_fetch_add_rm [''2025-02-01.json''] (baseItemsOf ex_base)
                     @ addedOf ex_delta_rm2)
   \<and> updatedOf ex_delta_rm2 = []
   \<and> keeps_id (edit_set ex_edit2) \<and> keeps_id (edit_set ex_edit)
   \<and> \<not> has_id ''it_2'' (editItem ex_edit ex_item1)
   \<and> items (loadCatalogData (Some ex_base) (Some ex_index_two) ex_fetch_add_rm (newApp ex_overlay2))
       = [editItem ex_edit ex_item1]
   \<and> items (loadCatalogData (Some ex_base) (Some ex_index_two) ex_fetch_add_rm
               (newApp (ex_overlay2\<lparr>edited := [ex_edit]\<rparr>)))
       = [editItem ex_edit ex_item1]"
proof -
  have before: "replayDeltas ex_fetch_add_rm [''2025-02-01.json''] (baseItemsOf ex_base)
      = [ex_item1, ex_item2]"
    by (simp add: ex_fetch_add_rm_def baseItemsOf_def ex_base_def mergeDelta_def ex_delta_add_def)
  have ids: "has_id ''it_1'' ex_item1" "has_id ''it_2'' ex_item2" "\<not> has_id ''it_2'' ex_item1"
    by (simp_all add: has_id_def idOf_def ex_item1_def ex_item2_def)
  have h: "deltasOf ex_index_two = [''2025-02-01.json''] @ ''2025-02-02.json'' # []"
    "ex_fetch_add_rm ''2025-02-02.json'' = Some ex_delta_rm2"
    "''it_2'' \<in> set (removedOf ex_delta_rm2)"
    "mergeDelta (replayDeltas ex_fetch_add_rm [''2025-02-01.json''] (baseItemsOf ex_base)) ex_delta_rm2
       = Returned [ex_item1]"
    "distinct_ids (replayDeltas ex_fetch_add_rm [''2025-02-01.json''] (baseItemsOf ex_base)
                     @ addedOf ex_delta_rm2)"
    "\<forall>u\<in>set (updatedOf ex_delta_rm2). keeps_id (setOf u)"
    "\<forall>f'\<in>set []. \<forall>d'. ex_fetch_add_rm f' = Some d' \<longrightarrow>
           (\<forall>a\<in>set (addedOf d'). \<not> has_id ''it_2'' a) \<and> (\<forall>u\<in>set (updatedOf d'). keeps_id (setOf u))"
    "\<forall>e\<in>set (edited ex_overlay2). keeps_id (edit_set e)"
    by (simp_all only: before)
      (simp_all add: deltasOf_def ex_index_two_def ex_fetch_add_rm_def removedOf_def
        addedOf_def updatedOf_def ex_delta_rm2_def mergeDelta_def removeId_def has_id_def
        distinct_ids_def idOf_def ex_item1_def ex_item2_def ex_overlay2_def keeps_id_def
        ex_edit_def ex_edit2_def)
  have fin: "items (loadCatalogData (Some ex_base) (Some ex_index_two) ex_fetch_add_rm (newApp ex_overlay2))
       = [editItem ex_edit ex_item1]"
    using h(4) ids
    by (simp add: items_loadCatalogData h(1) replayDeltas_append before h(2) newApp_def
        applyLocalEdits_def ex_overlay2_def applyEdit_def ex_edit2_def)
      (simp add: ex_edit_def)
  have flt: "filter (\<lambda>e. edit_id e \<noteq> ''it_2'') (edited ex_overlay2) = [ex_edit]"
    by (simp add: ex_overlay2_def ex_edit_def ex_edit2_def)
  from removal_is_final[OF h] fin flt h show ?thesis
    by (simp add: removedOf_def updatedOf_def ex_delta_rm2_def ex_overlay2_def)
qed

text \<open>
  C9. Counterexample: the base holds \<^verbatim>\<open>it_1\<close>, the first delta of the manifest adds an
  item with id \<^verbatim>\<open>it_1\<close>, the second delta lists \<^verbatim>\<open>it_1\<close> in \<^verbatim>\<open>removed\<close>. Only the
  first item with that id is spliced out; the loaded collection still holds \<^verbatim>\<open>it_1\<close>.
\<close>

theorem removal_not_final_counterexample:
  "deltas ex_index_two = Some [''2025-02-01.json'', ''2025-02-02.json'']
   \<and> ex_fetch_dup_rm ''2025-02-01.json'' = Some ex_delta_dup
   \<and> ex_fetch_dup_rm ''2025-02-02.json'' = Some ex_delta_rm1
   \<and> removed ex_delta_rm1 = Some [''it_1'']
   \<and> items (loadCatalogData (Some ex_base) (Some ex_index_two) ex_fetch_dup_rm (newApp ex_no_edits))
       = [ex_item1_again]
   \<and> has_id ''it_1'' ex_item1_again"
proof -
  have ids: "has_id ''it_1'' ex_item1" "has_id ''it_1'' ex_item1_again"
    by (simp_all add: has_id_def idOf_def ex_item1_def ex_item1_again_def)
  show ?thesis
    using ids
    by (simp add: items_loadCatalogData deltasOf_def baseItemsOf_def ex_base_def ex_index_two_def
        ex_fetch_dup_rm_def ex_delta_dup_def ex_delta_rm1_def mergeDelta_def removeId_def
        newApp_def ex_no_edits_def applyLocalEdits_def)
qed

section \<open>Updates and removals of absent ids\<close>

text \<open>
  C10. An \<^verbatim>\<open>updated\<close> entry whose id no item of the collection carries, and a
  \<^verbatim>\<open>removed\<close> id that no item carries, are no-ops: the entry's step returns normally
  with the collection unchanged, and a delta made only of such entries returns normally
  with the collection unchanged.
\<close>

theorem absent_update_and_removal_are_noops:
  "((\<forall>item\<in>set coll. \<not> has_id (upd_id u) item) \<longrightarrow> applyUpdate coll u = Returned coll)
   \<and> ((\<forall>item\<in>set coll. \<not> has_id r item) \<longrightarrow> removeId r coll = coll)
   \<and> ((\<forall>u\<in>set us. \<forall>item\<in>set coll. \<not> has_id (upd_id u) item)
        \<and> (\<forall>r\<in>set rs. \<forall>item\<in>set coll. \<not> has_id r item)
      \<longrightarrow> mergeDelta coll \<lparr>added = None, updated = Some us, removed = Some rs\<rparr>
            = Returned coll)"
  by (simp add: applyUpdate_def removeId_def mergeDelta_def findIndex_None_iff[THEN iffD2]
      applyUpdates_absent removeIds_absent)

theorem absent_update_and_removal_are_noops_witness:
  "\<not> has_id ''it_9'' ex_item1
   \<and> applyUpdate [ex_item1] ex_upd_absent = Returned [ex_item1]
   \<and> removeId ''it_9'' [ex_item1] = [ex_item1]
   \<and> mergeDelta [ex_item1] \<lparr>added = None, updated = Some [ex_upd_absent], removed = Some [''it_9'']\<rparr>
       = Returned [ex_item1]"
proof -
  have h: "\<not> has_id ''it_9'' ex_item1"
    by (simp add: has_id_def idOf_def ex_item1_def)
  show ?thesis
    using absent_update_and_removal_are_noops
      [of "[ex_item1]" ex_upd_absent "''it_9''" "[ex_upd_absent]" "[''it_9'']"] h
    by (simp add: ex_upd_absent_def)
qed

end
